theory Spec2Isabelle
  imports Complex_Main "HOL-Library.Log_Nat"
begin

section \<open>Numbers\<close>

text \<open>
  The source computes with JavaScript numbers, which are double-precision floats, and keeps
  the records of a level in a \<open>Float32Array\<close>. Zoom levels, record indices, point counts
  and identifiers are integers and are modelled as \<open>int\<close> (\<open>nat\<close> for positions that a loop
  counter or the spatial index produces): integer arithmetic in doubles is exact below
  \<open>2 ^ 53\<close>, which no index, count or identifier of a level reaches (an array has fewer
  than \<open>2 ^ 32\<close> elements). Coordinates and the pixel radius are rationals. \<open>float64\<close> is
  the rounding of a product, sum or quotient of such numbers to the nearest double, and
  \<open>float32\<close> the rounding of \<open>Math.fround\<close> and of a store into a \<open>Float32Array\<close>, both
  to nearest with ties to even and with subnormal numbers. The model has no infinite and no
  undefined coordinate: a coordinate of an input point is a number of magnitude below
  \<open>2 ^ 128 - 2 ^ 103\<close>, which single precision holds without overflow.
\<close>

definition round_even :: "rat \<Rightarrow> int" where
  "round_even x =
     (let f = \<lfloor>x\<rfloor>; d = x - of_int f
      in if d < 1 / 2 then f else if 1 / 2 < d then f + 1 else if even f then f else f + 1)"

text \<open>The binary exponent of a number other than 0: \<open>2 ^ e \<le> |x| < 2 ^ (e + 1)\<close>.\<close>

definition expo :: "rat \<Rightarrow> int" where
  "expo x =
     (case quotient_of \<bar>x\<bar> of (a, b) \<Rightarrow>
        let d = bitlen a - bitlen b
        in if 2 powi d \<le> \<bar>x\<bar> then d else d - 1)"

text \<open>Rounding to \<open>p\<close> significant bits, with \<open>emin\<close> the exponent of the least normal
  number.\<close>

definition rnd :: "int \<Rightarrow> int \<Rightarrow> rat \<Rightarrow> rat" where
  "rnd p emin x =
     (if x = 0 then 0
      else let q = 2 powi (max (expo x) emin - p + 1)
           in of_int (round_even (x / q)) * q)"

definition float32 :: "rat \<Rightarrow> rat" where
  "float32 x = rnd 24 (- 126) x"

definition float64 :: "rat \<Rightarrow> rat" where
  "float64 x = rnd 53 (- 1022) x"

text \<open>The value that a \<open>Float32Array\<close> holds after an integer is stored into it; it is an
  integer again.\<close>

definition f32i :: "int \<Rightarrow> int" where
  "f32i n = \<lfloor>float32 (of_int n)\<rfloor>"

definition in_range32 :: "rat \<Rightarrow> bool" where
  "in_range32 x = (\<bar>x\<bar> < 2 ^ 128 - 2 ^ 103)"

text \<open>
  A division can produce an infinity or NaN (the radius of the pass at zoom 0 is
  \<open>radius / 0\<close>), so the result of a division is a \<open>jsnum\<close>.
\<close>

datatype jsnum = Num rat | PosInf | NegInf | NaN

definition jsdiv :: "rat \<Rightarrow> rat \<Rightarrow> jsnum" where
  "jsdiv a b =
     (if b \<noteq> 0 then Num (float64 (a / b))
      else if 0 < a then PosInf
      else if a < 0 then NegInf
      else NaN)"

text \<open>\<open>ToInt32\<close>, the conversion that \<open>| 0\<close>, \<open><<\<close> and \<open>>>\<close> apply to their operands.\<close>

definition toInt32 :: "int \<Rightarrow> int" where
  "toInt32 v = (v + 2 ^ 31) mod 2 ^ 32 - 2 ^ 31"

text \<open>\<open>v << 5\<close> and \<open>v >> 5\<close> on 32-bit signed integers, and the remainder \<open>v % 32\<close>,
  which takes the sign of \<open>v\<close>.\<close>

definition shl5 :: "int \<Rightarrow> int" where
  "shl5 v = toInt32 (toInt32 v * 32)"

definition sar5 :: "int \<Rightarrow> int" where
  "sar5 v = toInt32 v div 32"

definition rem32 :: "int \<Rightarrow> int" where
  "rem32 v = (if v < 0 then - ((- v) mod 32) else v mod 32)"

section \<open>Data model\<close>

text \<open>
  The value of the cell at \<open>OFFSET_ZOOM\<close>: \<open>Infinity\<close> for a record that no pass has
  visited, or the zoom of the last pass that visited it.
\<close>

datatype zmark = Infinity | Zoom int

fun zle :: "zmark \<Rightarrow> int \<Rightarrow> bool" where
  "zle Infinity z = False"
| "zle (Zoom v) z = (v \<le> z)"

fun zgt :: "zmark \<Rightarrow> int \<Rightarrow> bool" where
  "zgt Infinity z = True"
| "zgt (Zoom v) z = (z < v)"

text \<open>
  One record of a level: the cells at offsets 0 and 1 and at \<open>OFFSET_ZOOM\<close>, \<open>OFFSET_ID\<close>,
  \<open>OFFSET_PARENT\<close> and \<open>OFFSET_NUM\<close> of the flat array. Record \<open>k\<close> of the model is the
  cells \<open>k * stride .. k * stride + 5\<close> of the source. The development is about instances
  whose options have no \<open>reduce\<close>: their stride is 6, no record has a cell at
  \<open>OFFSET_PROP\<close>, and \<open>clusterProps\<close> stays empty, since \<open>_cluster\<close> aggregates
  properties only when both \<open>map\<close> and \<open>reduce\<close> are given.
\<close>

record cells =
  off_x :: rat
  off_y :: rat
  off_zoom :: zmark
  off_id :: int
  off_parent :: int
  off_num :: int

type_synonym tree = "cells list"

definition coords :: "tree \<Rightarrow> (rat \<times> rat) list" where
  "coords data = map (\<lambda>c. (off_x c, off_y c)) data"

text \<open>
  The properties of an input point are the caller's. The source reads three members of
  them: \<open>isCluster\<close> tests \<open>properties.cluster === true\<close>, and for an object that passes
  this test \<open>_appendLeaves\<close> reads \<open>properties.point_count\<close> and
  \<open>properties.cluster_id\<close>, as \<open>getClusterExpansionZoom\<close> does for an only child. The
  model holds the outcome of the test and the two members, each a number or \<open>undefined\<close>;
  \<open>other\<close> is all the rest.
\<close>

record 'p properties =
  cluster_prop :: bool
  cluster_id_prop :: "jsnum option"
  point_count_prop :: "jsnum option"
  other :: 'p

record 'p point =
  point_id :: "int option"
  coordinates :: "rat \<times> rat"
  properties :: "'p properties"

text \<open>A point whose coordinates single precision holds without overflow.\<close>

definition in_range :: "'p point \<Rightarrow> bool" where
  "in_range p = (in_range32 (fst (coordinates p)) \<and> in_range32 (snd (coordinates p)))"

type_synonym bbox = "rat \<times> rat \<times> rat \<times> rat"

text \<open>A coordinate pair lies within a bounding box \<open>[minX, minY, maxX, maxY]\<close>.\<close>

fun in_bbox :: "bbox \<Rightarrow> rat \<times> rat \<Rightarrow> bool" where
  "in_bbox (minX, minY, maxX, maxY) (px, py) =
     (minX \<le> px \<and> px \<le> maxX \<and> minY \<le> py \<and> py \<le> maxY)"

text \<open>
  The options. \<open>scalingFunction\<close> is the option that the README documents; the interface
  \<open>Options\<close> does not declare it, and \<open>Object.assign\<close> copies it into the options of the
  instance like every other property of the argument.
\<close>

record options =
  minZoom :: int
  maxZoom :: int
  minPoints :: int
  radius :: rat
  nodeSize :: int
  log_flag :: bool
  scalingFunction :: "(int \<Rightarrow> rat) option"

record partial_options =
  minZoom_arg :: "int option"
  maxZoom_arg :: "int option"
  minPoints_arg :: "int option"
  radius_arg :: "rat option"
  nodeSize_arg :: "int option"
  log_arg :: "bool option"
  scalingFunction_arg :: "(int \<Rightarrow> rat) option"

definition defaultOptions :: options where
  "defaultOptions =
     \<lparr>minZoom = 1, maxZoom = 16, minPoints = 2, radius = 40, nodeSize = 64,
      log_flag = False, scalingFunction = None\<rparr>"

definition no_options :: partial_options where
  "no_options =
     \<lparr>minZoom_arg = None, maxZoom_arg = None, minPoints_arg = None, radius_arg = None,
      nodeSize_arg = None, log_arg = None, scalingFunction_arg = None\<rparr>"

text \<open>\<open>Object.assign(Object.create(this.defaultOptions), options)\<close>.\<close>

definition assign_options :: "partial_options \<Rightarrow> options" where
  "assign_options po =
     \<lparr>minZoom = (case minZoom_arg po of None \<Rightarrow> minZoom defaultOptions | Some v \<Rightarrow> v),
      maxZoom = (case maxZoom_arg po of None \<Rightarrow> maxZoom defaultOptions | Some v \<Rightarrow> v),
      minPoints = (case minPoints_arg po of None \<Rightarrow> minPoints defaultOptions | Some v \<Rightarrow> v),
      radius = (case radius_arg po of None \<Rightarrow> radius defaultOptions | Some v \<Rightarrow> v),
      nodeSize = (case nodeSize_arg po of None \<Rightarrow> nodeSize defaultOptions | Some v \<Rightarrow> v),
      log_flag = (case log_arg po of None \<Rightarrow> log_flag defaultOptions | Some v \<Rightarrow> v),
      scalingFunction = scalingFunction_arg po\<rparr>"

text \<open>
  The instance: its options, the per-zoom array \<open>trees\<close> (a JavaScript array, which takes
  any integer as a key and answers \<open>undefined\<close> where nothing was stored) and the loaded
  points.
\<close>

record 'p state =
  opts :: options
  trees :: "int \<Rightarrow> tree option"
  points :: "'p point list"

datatype error = NoCluster | TypeError | RangeError

text \<open>
  The constructor. \<open>new Array(n)\<close> throws a \<open>RangeError\<close> unless \<open>n\<close> is an integer
  with \<open>0 \<le> n < 2 ^ 32\<close>; nothing else in the constructor can fail.
\<close>

definition constructor :: "partial_options \<Rightarrow> error + 'p state" where
  "constructor po =
     (let options = assign_options po in
      if 0 \<le> maxZoom options + 1 \<and> maxZoom options + 1 < 2 ^ 32
      then Inr \<lparr>opts = options, trees = (\<lambda>z. None), points = []\<rparr>
      else Inl RangeError)"

section \<open>Identity encoder\<close>

text \<open>
  The identifier that the pass at \<open>zoom\<close> gives to the cluster anchored at record \<open>i\<close>,
  with \<open>n\<close> the number of loaded points:
  \<open>(((i / stride) | 0) << 5) + (zoom + 1) + this.points.length\<close>.
\<close>

definition encode_id :: "nat \<Rightarrow> int \<Rightarrow> int \<Rightarrow> int" where
  "encode_id i zoom n = shl5 (int i) + (zoom + 1) + n"

definition getOriginId :: "int \<Rightarrow> int \<Rightarrow> int" where
  "getOriginId n cid = sar5 (cid - n)"

definition getOriginZoom :: "int \<Rightarrow> int \<Rightarrow> int" where
  "getOriginZoom n cid = rem32 (cid - n)"

section \<open>Hierarchy builder\<close>

text \<open>The radius of the pass at \<open>zoom\<close>: \<open>const r = radius / zoom\<close>.\<close>

definition cluster_radius :: "options \<Rightarrow> int \<Rightarrow> jsnum" where
  "cluster_radius options zoom = jsdiv (radius options) (of_int zoom)"

text \<open>
  The spatial index is the package \<open>kdbush\<close>, which is not part of the repository. The
  development takes its two queries as parameters. Both queries see the coordinates that
  the index was built from, which are the coordinates that the \<open>Float32Array\<close> of the
  level holds, and answer with positions of records. The point of a radius query is
  \<open>None\<close> when the source reads it from cells that do not exist (\<open>undefined\<close>).
\<close>

record env =
  kd_within :: "(rat \<times> rat) list \<Rightarrow> (rat \<times> rat) option \<Rightarrow> jsnum \<Rightarrow> nat list"
  kd_range :: "(rat \<times> rat) list \<Rightarrow> bbox \<Rightarrow> nat list"

text \<open>
  \<open>_createTree\<close> stores the numbers of a level into a \<open>Float32Array\<close>, which rounds each
  of them to single precision, and builds the index over the rounded coordinates. The
  index of a level is determined by the level's records.
\<close>

definition store32 :: "cells \<Rightarrow> cells" where
  "store32 c =
     \<lparr>off_x = float32 (off_x c), off_y = float32 (off_y c),
      off_zoom = (case off_zoom c of Infinity \<Rightarrow> Infinity | Zoom z \<Rightarrow> Zoom (f32i z)),
      off_id = f32i (off_id c), off_parent = f32i (off_parent c), off_num = f32i (off_num c)\<rparr>"

definition createTree :: "tree \<Rightarrow> tree" where
  "createTree data = map store32 data"

text \<open>The loop that counts the points of a potential cluster (lines 215 to 219).\<close>

definition count_step :: "tree \<Rightarrow> int \<Rightarrow> int \<Rightarrow> nat \<Rightarrow> int" where
  "count_step data zoom numPoints k =
     (if zgt (off_zoom (data ! k)) zoom then numPoints + off_num (data ! k) else numPoints)"

definition count_neighbors :: "tree \<Rightarrow> int \<Rightarrow> int \<Rightarrow> nat list \<Rightarrow> int" where
  "count_neighbors data zoom numPointsOrigin neighborIds =
     foldl (count_step data zoom) numPointsOrigin neighborIds"

text \<open>
  The loop that absorbs the neighbours into the new cluster (lines 232 to 252). The array
  \<open>data\<close> is a view of the \<open>Float32Array\<close> of the level, so what the loop writes to
  it is rounded to single precision; the weighted sums are doubles.
\<close>

fun merge_neighbors :: "int \<Rightarrow> int \<Rightarrow> nat list \<Rightarrow> tree \<times> rat \<times> rat \<Rightarrow> tree \<times> rat \<times> rat" where
  "merge_neighbors zoom cid [] s = s"
| "merge_neighbors zoom cid (k # ks) (data, wx, wy) =
     (if zle (off_zoom (data ! k)) zoom then merge_neighbors zoom cid ks (data, wx, wy)
      else merge_neighbors zoom cid ks
             (data[k := (data ! k)\<lparr>off_zoom := Zoom (f32i zoom), off_parent := f32i cid\<rparr>],
              float64 (wx + float64 (off_x (data ! k) * of_int (off_num (data ! k)))),
              float64 (wy + float64 (off_y (data ! k) * of_int (off_num (data ! k))))))"

text \<open>The loop that carries the neighbours of an unclustered record forward
  (lines 262 to 267).\<close>

fun copy_neighbors :: "int \<Rightarrow> nat list \<Rightarrow> tree \<times> tree \<Rightarrow> tree \<times> tree" where
  "copy_neighbors zoom [] s = s"
| "copy_neighbors zoom (k # ks) (data, nextData) =
     (if zle (off_zoom (data ! k)) zoom then copy_neighbors zoom ks (data, nextData)
      else copy_neighbors zoom ks
             (data[k := (data ! k)\<lparr>off_zoom := Zoom (f32i zoom)\<rparr>],
              nextData @ [(data ! k)\<lparr>off_zoom := Zoom (f32i zoom)\<rparr>]))"

text \<open>
  The two branches of a round of \<open>_cluster\<close> for a record \<open>i\<close> that the pass has just
  marked: forming a cluster with the identifier \<open>cid\<close> (lines 223 to 256), and leaving the
  record unclustered (lines 258 to 268). The state is the array of the level, which the
  pass writes to, and \<open>nextData\<close>.
\<close>

definition form_cluster :: "int \<Rightarrow> int \<Rightarrow> nat \<Rightarrow> nat list \<Rightarrow> int \<Rightarrow> tree \<times> tree \<Rightarrow> tree \<times> tree" where
  "form_cluster zoom cid i neighborIds numPoints s =
     (case s of (data1, nextData) \<Rightarrow>
        (case merge_neighbors zoom cid neighborIds
                (data1, float64 (off_x (data1 ! i) * of_int (off_num (data1 ! i))),
                 float64 (off_y (data1 ! i) * of_int (off_num (data1 ! i)))) of
           (data2, wx, wy) \<Rightarrow>
             (data2[i := (data2 ! i)\<lparr>off_parent := f32i cid\<rparr>],
              nextData @
                [\<lparr>off_x = float64 (wx / of_int numPoints),
                  off_y = float64 (wy / of_int numPoints),
                  off_zoom = Infinity, off_id = cid, off_parent = - 1,
                  off_num = numPoints\<rparr>])))"

definition leave_unclustered :: "int \<Rightarrow> nat \<Rightarrow> nat list \<Rightarrow> int \<Rightarrow> tree \<times> tree \<Rightarrow> tree \<times> tree" where
  "leave_unclustered zoom i neighborIds numPoints s =
     (case s of (data1, nextData) \<Rightarrow>
        if numPoints > 1 then copy_neighbors zoom neighborIds (data1, nextData @ [data1 ! i])
        else (data1, nextData @ [data1 ! i]))"

text \<open>
  One round of the loop over the records of \<open>_cluster\<close>, for record \<open>i\<close>. \<open>n\<close> is
  \<open>this.points.length\<close>. The division of the weighted sums is by a positive count in every
  level that \<open>load\<close> builds.
\<close>

definition cluster_step :: "env \<Rightarrow> options \<Rightarrow> int \<Rightarrow> int \<Rightarrow> tree \<times> tree \<Rightarrow> nat \<Rightarrow> tree \<times> tree" where
  "cluster_step e options n zoom s i =
     (case s of (data, nextData) \<Rightarrow>
        if zle (off_zoom (data ! i)) zoom then (data, nextData)
        else
          let data1 = data[i := (data ! i)\<lparr>off_zoom := Zoom (f32i zoom)\<rparr>];
              neighborIds =
                kd_within e (coords data1) (Some (off_x (data1 ! i), off_y (data1 ! i)))
                  (cluster_radius options zoom);
              numPointsOrigin = off_num (data1 ! i);
              numPoints = count_neighbors data1 zoom numPointsOrigin neighborIds
          in
            if numPoints > numPointsOrigin \<and> numPoints \<ge> minPoints options
            then form_cluster zoom (encode_id i zoom n) i neighborIds numPoints (data1, nextData)
            else leave_unclustered zoom i neighborIds numPoints (data1, nextData))"

text \<open>\<open>_cluster\<close>: the written array of the level and the records of the next level.\<close>

definition cluster :: "env \<Rightarrow> options \<Rightarrow> int \<Rightarrow> tree \<Rightarrow> int \<Rightarrow> tree \<times> tree" where
  "cluster e options n data zoom =
     foldl (cluster_step e options n zoom) (data, []) [0..<length data]"

text \<open>The records that \<open>load\<close> makes for the input points (lines 54 to 72).\<close>

definition leaf_cells :: "'p point list \<Rightarrow> tree" where
  "leaf_cells ps =
     map (\<lambda>i. \<lparr>off_x = float32 (fst (coordinates (ps ! i))),
               off_y = float32 (snd (coordinates (ps ! i))),
               off_zoom = Infinity, off_id = int i, off_parent = - 1, off_num = 1\<rparr>)
       [0..<length ps]"

text \<open>
  The loop of \<open>load\<close> over the zoom levels, from \<open>maxZoom\<close> down to \<open>minZoom\<close>. The
  pass writes to the array of level \<open>z + 1\<close>, which \<open>trees\<close> holds, and stores the new
  level at \<open>z\<close>.
\<close>

function load_loop :: "env \<Rightarrow> 'p state \<Rightarrow> tree \<Rightarrow> int \<Rightarrow> 'p state" where
  "load_loop e st tree z =
     (if minZoom (opts st) \<le> z then
        (case cluster e (opts st) (int (length (points st))) tree z of
           (data, nextData) \<Rightarrow>
             load_loop e
               (st\<lparr>trees := (trees st)(z + 1 := Some data, z := Some (createTree nextData))\<rparr>)
               (createTree nextData) (z - 1))
      else st)"
  by pat_completeness auto
termination
  by (relation "measure (\<lambda>(e, st, tree, z). nat (z + 1 - minZoom (opts st)))") auto

definition load :: "env \<Rightarrow> 'p state \<Rightarrow> 'p point list \<Rightarrow> 'p state" where
  "load e st ps =
     (let tree = createTree (leaf_cells ps)
      in load_loop e
           (st\<lparr>points := ps, trees := (trees st)(maxZoom (opts st) + 1 := Some tree)\<rparr>)
           tree (maxZoom (opts st)))"

section \<open>Query layer\<close>

text \<open>
  What a query returns: an input point, identified by its position in \<open>this.points\<close>
  (the object \<open>this.points[i]\<close>, which is \<open>undefined\<close> when \<open>i\<close> is not a position of
  the array), or the description of a cluster that \<open>_getClusterJSON\<close> makes.
\<close>

datatype abbrev = Count int | Kilo rat

record cluster_json =
  json_id :: int
  cluster_id :: int
  point_count :: int
  point_count_abbreviated :: abbrev
  json_coordinates :: "rat \<times> rat"

datatype feature = PointRef int | ClusterF cluster_json

text \<open>\<open>Math.round\<close> rounds half up.\<close>

definition js_round :: "rat \<Rightarrow> int" where
  "js_round q = \<lfloor>q + 1 / 2\<rfloor>"

definition getClusterJSON :: "cells \<Rightarrow> cluster_json" where
  "getClusterJSON c =
     (let count = off_num c
      in \<lparr>json_id = off_id c, cluster_id = off_id c, point_count = count,
          point_count_abbreviated =
            (if count \<ge> 10000 then Kilo (of_int (js_round (of_int count / 1000)))
             else if count \<ge> 1000 then Kilo (of_int (js_round (of_int count / 100)) / 10)
             else Count count),
          json_coordinates = (off_x c, off_y c)\<rparr>)"

text \<open>The expression that \<open>getClusters\<close> and \<open>getChildren\<close> push for a record.\<close>

definition project :: "cells \<Rightarrow> feature" where
  "project c = (if off_num c > 1 then ClusterF (getClusterJSON c) else PointRef (off_id c))"

definition limitZoom :: "options \<Rightarrow> rat \<Rightarrow> int" where
  "limitZoom options z = max (minZoom options) (min \<lfloor>z\<rfloor> (maxZoom options + 1))"

text \<open>\<open>getClusters\<close>. Where \<open>trees\<close> has no index for the level, the call of
  \<open>tree.range\<close> is a \<open>TypeError\<close>.\<close>

definition getClusters :: "env \<Rightarrow> 'p state \<Rightarrow> bbox \<Rightarrow> rat \<Rightarrow> error + feature list" where
  "getClusters e st bbox zoom =
     (case trees st (limitZoom (opts st) zoom) of
        None \<Rightarrow> Inl TypeError
      | Some data \<Rightarrow> Inr (map (\<lambda>k. project (data ! k)) (kd_range e (coords data) bbox)))"

text \<open>
  \<open>getChildren\<close>. The test \<open>originId * this.stride >= data.length\<close> compares the
  anchor's position with the number of records of the level. A negative \<open>originId\<close>
  passes it, and the coordinates read for it are \<open>undefined\<close>.
\<close>

definition getChildren :: "env \<Rightarrow> 'p state \<Rightarrow> int \<Rightarrow> error + feature list" where
  "getChildren e st clusterId =
     (let originId = getOriginId (int (length (points st))) clusterId;
          originZoom = getOriginZoom (int (length (points st))) clusterId
      in case trees st originZoom of
           None \<Rightarrow> Inl NoCluster
         | Some data \<Rightarrow>
             if originId \<ge> int (length data) then Inl NoCluster
             else
               let r = jsdiv (radius (opts st)) (of_int (originZoom - 1));
                   q = (if 0 \<le> originId
                        then Some (off_x (data ! nat originId), off_y (data ! nat originId))
                        else None);
                   ids = kd_within e (coords data) q r;
                   children =
                     map (\<lambda>k. project (data ! k))
                       (filter (\<lambda>k. off_parent (data ! k) = clusterId) ids)
               in if children = [] then Inl NoCluster else Inr children)"

text \<open>
  A child that \<open>getChildren\<close> delivers is the description of a cluster or an input
  point. The callers read \<open>properties.cluster_id\<close> of it, and reading it from
  \<open>undefined\<close> is a \<open>TypeError\<close>. For an input point the member is the caller's.
\<close>

definition cluster_id_of :: "'p state \<Rightarrow> feature \<Rightarrow> error + jsnum option" where
  "cluster_id_of st f =
     (case f of
        ClusterF j \<Rightarrow> Inr (Some (Num (of_int (cluster_id j))))
      | PointRef i \<Rightarrow>
          if 0 \<le> i \<and> i < int (length (points st))
          then Inr (cluster_id_prop (properties (points st ! nat i)))
          else Inl TypeError)"

text \<open>
  \<open>getChildren\<close> of a cluster id that was read from properties, a number or \<open>undefined\<close>.
  For \<open>undefined\<close>, NaN and the infinities the decoded zoom is NaN and \<open>trees\<close> has
  nothing there. For a number that is not an integer the decoded zoom is not an integer,
  and \<open>trees\<close> has nothing there, or, where the subtraction of \<open>this.points.length\<close>
  rounds it away, no record has the number as its parent, since every cell holds an
  integer. In each of these cases the call throws the same error.
\<close>

definition getChildren_num :: "env \<Rightarrow> 'p state \<Rightarrow> jsnum option \<Rightarrow> error + feature list" where
  "getChildren_num e st clusterId =
     (case clusterId of
        Some (Num q) \<Rightarrow> if q = of_int \<lfloor>q\<rfloor> then getChildren e st \<lfloor>q\<rfloor> else Inl NoCluster
      | _ \<Rightarrow> Inl NoCluster)"

text \<open>
  The loop of \<open>getClusterExpansionZoom\<close>. Its state is \<open>expansionZoom\<close> and
  \<open>clusterId\<close>; the function returns the state in which the loop ends.
\<close>

function expansion_loop :: "env \<Rightarrow> 'p state \<Rightarrow> int \<Rightarrow> jsnum option \<Rightarrow> error + int \<times> jsnum option" where
  "expansion_loop e st expansionZoom clusterId =
     (if expansionZoom \<le> maxZoom (opts st) then
        (case getChildren_num e st clusterId of
           Inl err \<Rightarrow> Inl err
         | Inr children \<Rightarrow>
             if length children \<noteq> 1 then Inr (expansionZoom + 1, clusterId)
             else
               (case cluster_id_of st (hd children) of
                  Inl err \<Rightarrow> Inl err
                | Inr c \<Rightarrow> expansion_loop e st (expansionZoom + 1) c))
      else Inr (expansionZoom, clusterId))"
  by pat_completeness auto
termination
  by (relation "measure (\<lambda>(e, st, z, c). nat (maxZoom (opts st) + 1 - z))") auto

definition getClusterExpansionZoom :: "env \<Rightarrow> 'p state \<Rightarrow> int \<Rightarrow> error + int" where
  "getClusterExpansionZoom e st clusterId =
     map_sum id fst
       (expansion_loop e st (getOriginZoom (int (length (points st))) clusterId - 1)
          (Some (Num (of_int clusterId))))"

text \<open>
  The arithmetic of \<open>_appendLeaves\<close> on \<open>skipped\<close>, \<open>offset\<close> and \<open>limit\<close>, which may
  be infinite or NaN: the sum \<open>a + b\<close>, the comparisons \<open>a <= b\<close> and \<open>a < b\<close>, and
  \<open>result.length === limit\<close>. \<open>undefined\<close> is NaN in a sum.
\<close>

fun jsadd :: "jsnum \<Rightarrow> jsnum \<Rightarrow> jsnum" where
  "jsadd (Num a) (Num b) = Num (float64 (a + b))"
| "jsadd NaN b = NaN"
| "jsadd (Num a) NaN = NaN"
| "jsadd PosInf NaN = NaN"
| "jsadd NegInf NaN = NaN"
| "jsadd PosInf NegInf = NaN"
| "jsadd NegInf PosInf = NaN"
| "jsadd PosInf (Num b) = PosInf"
| "jsadd PosInf PosInf = PosInf"
| "jsadd (Num a) PosInf = PosInf"
| "jsadd NegInf (Num b) = NegInf"
| "jsadd NegInf NegInf = NegInf"
| "jsadd (Num a) NegInf = NegInf"

fun num_le :: "jsnum \<Rightarrow> jsnum \<Rightarrow> bool" where
  "num_le (Num a) (Num b) = (a \<le> b)"
| "num_le NaN b = False"
| "num_le (Num a) NaN = False"
| "num_le PosInf NaN = False"
| "num_le NegInf NaN = False"
| "num_le (Num a) PosInf = True"
| "num_le PosInf PosInf = True"
| "num_le NegInf PosInf = True"
| "num_le NegInf (Num b) = True"
| "num_le NegInf NegInf = True"
| "num_le (Num a) NegInf = False"
| "num_le PosInf (Num b) = False"
| "num_le PosInf NegInf = False"

fun num_lt :: "jsnum \<Rightarrow> jsnum \<Rightarrow> bool" where
  "num_lt (Num a) (Num b) = (a < b)"
| "num_lt NaN b = False"
| "num_lt (Num a) NaN = False"
| "num_lt PosInf NaN = False"
| "num_lt NegInf NaN = False"
| "num_lt (Num a) PosInf = True"
| "num_lt PosInf PosInf = False"
| "num_lt NegInf PosInf = True"
| "num_lt NegInf (Num b) = True"
| "num_lt NegInf NegInf = False"
| "num_lt (Num a) NegInf = False"
| "num_lt PosInf (Num b) = False"
| "num_lt PosInf NegInf = False"

fun js_eq :: "int \<Rightarrow> jsnum \<Rightarrow> bool" where
  "js_eq a (Num b) = (of_int a = b)"
| "js_eq a PosInf = False"
| "js_eq a NegInf = False"
| "js_eq a NaN = False"

definition to_num :: "jsnum option \<Rightarrow> jsnum" where
  "to_num v = (case v of None \<Rightarrow> NaN | Some w \<Rightarrow> w)"

text \<open>\<open>v || d\<close> for an optional number: \<open>undefined\<close>, \<open>0\<close> and NaN are falsy.\<close>

definition or_default :: "jsnum option \<Rightarrow> jsnum \<Rightarrow> jsnum" where
  "or_default v d =
     (case v of
        None \<Rightarrow> d
      | Some NaN \<Rightarrow> d
      | Some (Num q) \<Rightarrow> if q = 0 then d else Num q
      | Some w \<Rightarrow> w)"

text \<open>
  \<open>isCluster(child)\<close>, which tests \<open>child.properties.cluster === true\<close> and throws a
  \<open>TypeError\<close> for \<open>undefined\<close>, together with what \<open>_appendLeaves\<close> then reads:
  \<open>props.point_count\<close> and \<open>props.cluster_id\<close>. The description of a cluster passes the
  test; an input point passes it when its own properties say so. \<open>None\<close> is a child that
  fails the test.
\<close>

definition child_cluster :: "'p state \<Rightarrow> feature \<Rightarrow> error + (jsnum \<times> jsnum option) option" where
  "child_cluster st f =
     (case f of
        ClusterF j \<Rightarrow> Inr (Some (Num (of_int (point_count j)), Some (Num (of_int (cluster_id j)))))
      | PointRef i \<Rightarrow>
          if 0 \<le> i \<and> i < int (length (points st)) then
            (let props = properties (points st ! nat i)
             in if cluster_prop props
                then Inr (Some (to_num (point_count_prop props), cluster_id_prop props))
                else Inr None)
          else Inl TypeError)"

text \<open>
  The loop of \<open>_appendLeaves\<close> over the children. \<open>enter\<close> is the recursive call of
  \<open>_appendLeaves\<close>. The recursion of the source follows the identifiers that it finds
  stored in the levels and in the properties and has no bound of its own, so the model
  counts the depth of the calls: \<open>None\<close> is a descent deeper than the given number.
\<close>

type_synonym leaves = "(error + feature list \<times> jsnum) option"

fun leaves_loop :: "(feature list \<Rightarrow> jsnum option \<Rightarrow> jsnum \<Rightarrow> leaves) \<Rightarrow> 'p state \<Rightarrow> jsnum \<Rightarrow> jsnum \<Rightarrow>
    feature list \<Rightarrow> feature list \<Rightarrow> jsnum \<Rightarrow> leaves" where
  "leaves_loop enter st limit offset [] result skipped = Some (Inr (result, skipped))"
| "leaves_loop enter st limit offset (child # rest) result skipped =
     (case child_cluster st child of
        Inl err \<Rightarrow> Some (Inl err)
      | Inr (Some (count, cid)) \<Rightarrow>
          if num_le (jsadd skipped count) offset then
            (if js_eq (int (length result)) limit
             then Some (Inr (result, jsadd skipped count))
             else leaves_loop enter st limit offset rest result (jsadd skipped count))
          else
            (case enter result cid skipped of
               None \<Rightarrow> None
             | Some (Inl err) \<Rightarrow> Some (Inl err)
             | Some (Inr (result', skipped')) \<Rightarrow>
                 if js_eq (int (length result')) limit then Some (Inr (result', skipped'))
                 else leaves_loop enter st limit offset rest result' skipped')
      | Inr None \<Rightarrow>
          if num_lt skipped offset then
            (if js_eq (int (length result)) limit then Some (Inr (result, jsadd skipped (Num 1)))
             else leaves_loop enter st limit offset rest result (jsadd skipped (Num 1)))
          else
            (if js_eq (int (length (result @ [child]))) limit
             then Some (Inr (result @ [child], skipped))
             else leaves_loop enter st limit offset rest (result @ [child]) skipped))"

primrec appendLeaves :: "nat \<Rightarrow> env \<Rightarrow> 'p state \<Rightarrow> jsnum \<Rightarrow> jsnum \<Rightarrow>
    feature list \<Rightarrow> jsnum option \<Rightarrow> jsnum \<Rightarrow> leaves" where
  "appendLeaves 0 e st limit offset result clusterId skipped = None"
| "appendLeaves (Suc depth) e st limit offset result clusterId skipped =
     (case getChildren_num e st clusterId of
        Inl err \<Rightarrow> Some (Inl err)
      | Inr children \<Rightarrow>
          leaves_loop (appendLeaves depth e st limit offset) st limit offset
            children result skipped)"

definition getLeaves :: "nat \<Rightarrow> env \<Rightarrow> 'p state \<Rightarrow> int \<Rightarrow> jsnum option \<Rightarrow> jsnum option \<Rightarrow>
    (error + feature list) option" where
  "getLeaves depth e st clusterId limit offset =
     map_option (map_sum id fst)
       (appendLeaves depth e st (or_default limit (Num 10)) (or_default offset (Num 0))
          [] (Some (Num (of_int clusterId))) (Num 0))"

section \<open>A reference index\<close>

text \<open>
  Modelled from the spec: the spatial index is an external collaborator (the package
  \<open>kdbush\<close>), described as a bulk-built point index with an axis-aligned range query and
  a fixed-radius neighbour query, both returning positions of records. This instance
  answers both by a scan of the coordinates, in the order of the records; it serves as the
  concrete index of the examples. A radius query compares squared distances with the
  squared radius, as \<open>kdbush\<close> does, and finds nothing for a point that is undefined.
\<close>

fun in_radius :: "rat \<times> rat \<Rightarrow> rat \<times> rat \<Rightarrow> jsnum \<Rightarrow> bool" where
  "in_radius (px, py) (qx, qy) (Num r) = ((px - qx) * (px - qx) + (py - qy) * (py - qy) \<le> r * r)"
| "in_radius (px, py) (qx, qy) PosInf = True"
| "in_radius (px, py) (qx, qy) NegInf = True"
| "in_radius (px, py) (qx, qy) NaN = False"

definition scan_within :: "(rat \<times> rat) list \<Rightarrow> (rat \<times> rat) option \<Rightarrow> jsnum \<Rightarrow> nat list" where
  "scan_within cs q r =
     (case q of
        None \<Rightarrow> []
      | Some c \<Rightarrow> filter (\<lambda>k. in_radius (cs ! k) c r) [0..<length cs])"

definition scan_range :: "(rat \<times> rat) list \<Rightarrow> bbox \<Rightarrow> nat list" where
  "scan_range cs b = filter (\<lambda>k. in_bbox b (cs ! k)) [0..<length cs]"

definition scan_env :: env where
  "scan_env = \<lparr>kd_within = scan_within, kd_range = scan_range\<rparr>"


section \<open>The contract of the spatial index\<close>

text \<open>
  What the development asks of the index: a radius query answers with positions of the
  level, each at most once; a range query answers with exactly the positions whose
  coordinates lie within the bounding box, each once.
\<close>

definition within_ok :: "env \<Rightarrow> bool" where
  "within_ok e =
     (\<forall>cs q r. distinct (kd_within e cs q r) \<and> (\<forall>k \<in> set (kd_within e cs q r). k < length cs))"

definition range_ok :: "env \<Rightarrow> bool" where
  "range_ok e =
     (\<forall>cs b. distinct (kd_range e cs b) \<and>
        set (kd_range e cs b) = {k. k < length cs \<and> in_bbox b (cs ! k)})"

section \<open>Notions of the specification\<close>

text \<open>The cells of a record that no pass writes.\<close>

definition static :: "cells \<Rightarrow> rat \<times> rat \<times> int \<times> int" where
  "static c = (off_x c, off_y c, off_id c, off_num c)"

text \<open>The number of points of a level, of its records that the pass at \<open>zoom\<close> has
  visited, and of the records among \<open>ks\<close> that it has not.\<close>

definition total :: "tree \<Rightarrow> int" where
  "total d = sum_list (map off_num d)"

definition psum :: "int \<Rightarrow> tree \<Rightarrow> int" where
  "psum zoom d = sum_list (map (\<lambda>c. if zle (off_zoom c) zoom then off_num c else 0) d)"

definition fresh_count :: "tree \<Rightarrow> int \<Rightarrow> nat list \<Rightarrow> int" where
  "fresh_count d zoom ks =
     sum_list (map (\<lambda>k. if zle (off_zoom (d ! k)) zoom then 0 else off_num (d ! k)) ks)"

text \<open>Every record of a level stands for at least one point and lies within the box.\<close>

definition level_ok :: "bbox \<Rightarrow> tree \<Rightarrow> bool" where
  "level_ok b d = (\<forall>c \<in> set d. 1 \<le> off_num c \<and> in_bbox b (off_x c, off_y c))"

text \<open>A box whose four bounds are single-precision numbers.\<close>

definition box32 :: "bbox \<Rightarrow> bool" where
  "box32 b =
     (case b of (minX, minY, maxX, maxY) \<Rightarrow>
        float32 minX = minX \<and> float32 minY = minY \<and> float32 maxX = maxX \<and> float32 maxY = maxY)"

text \<open>The number of points that a result of \<open>getClusters\<close> stands for.\<close>

definition count_of :: "feature \<Rightarrow> int" where
  "count_of f = (case f of PointRef i \<Rightarrow> 1 | ClusterF j \<Rightarrow> point_count j)"

text \<open>
  \<open>getChildren\<close> in the words of the specification: the neighbours of the anchor at the
  level of the decoded origin zoom, within \<open>radius / (originZoom - 1)\<close>, and of these the
  records whose parent is the cluster.
\<close>

definition anchor_query :: "env \<Rightarrow> 'p state \<Rightarrow> tree \<Rightarrow> int \<Rightarrow> nat list" where
  "anchor_query e st data clusterId =
     (let n = int (length (points st));
          originId = getOriginId n clusterId;
          originZoom = getOriginZoom n clusterId
      in kd_within e (coords data)
           (if 0 \<le> originId then Some (off_x (data ! nat originId), off_y (data ! nat originId))
            else None)
           (jsdiv (radius (opts st)) (of_int (originZoom - 1))))"

definition children_with_parent :: "env \<Rightarrow> 'p state \<Rightarrow> tree \<Rightarrow> int \<Rightarrow> feature list" where
  "children_with_parent e st data clusterId =
     map (\<lambda>k. project (data ! k))
       (filter (\<lambda>k. off_parent (data ! k) = clusterId) (anchor_query e st data clusterId))"

section \<open>The scenario of the specification\<close>

text \<open>
  Three points, two of them close to each other, loaded with the radius 40, \<open>minPoints\<close>
  2 and the zooms 0 to 4, over the reference index.
\<close>

definition plain :: "'p \<Rightarrow> 'p properties" where
  "plain x = \<lparr>cluster_prop = False, cluster_id_prop = None, point_count_prop = None, other = x\<rparr>"

definition example_point :: "rat \<Rightarrow> rat \<Rightarrow> unit point" where
  "example_point px py = \<lparr>point_id = None, coordinates = (px, py), properties = plain ()\<rparr>"

definition example_points :: "unit point list" where
  "example_points = [example_point 0 0, example_point 1 1, example_point 100 100]"

definition example_options :: partial_options where
  "example_options = no_options\<lparr>minZoom_arg := Some 0, maxZoom_arg := Some 4\<rparr>"

definition example_instance :: "unit state" where
  "example_instance = \<lparr>opts = assign_options example_options, trees = (\<lambda>z. None), points = []\<rparr>"


text \<open>The cluster of the two close points, as level 4 holds it.\<close>

definition example_cluster :: cells where
  "example_cluster =
     \<lparr>off_x = 1 / 2, off_y = 1 / 2, off_zoom = Zoom 3, off_id = 8, off_parent = - 1, off_num = 2\<rparr>"

definition example_bbox :: bbox where
  "example_bbox = (- 10, - 10, 110, 110)"

section \<open>The lineage that a pass records\<close>

text \<open>
  A further demand on the index, for a radius that is not negative: the radius query at
  the coordinates of a record of the level finds that record.
\<close>

fun radius_ok :: "jsnum \<Rightarrow> bool" where
  "radius_ok (Num r) = (0 \<le> r)"
| "radius_ok PosInf = True"
| "radius_ok NegInf = False"
| "radius_ok NaN = False"

definition within_self :: "env \<Rightarrow> bool" where
  "within_self e =
     (\<forall>cs i r. i < length cs \<and> radius_ok r \<longrightarrow> i \<in> set (kd_within e cs (Some (cs ! i)) r))"

text \<open>
  The records of the level \<open>d\<close> that the pass at \<open>zoom\<close> finds around record \<open>i\<close> and
  that carry the parent \<open>cid\<close>; and what it means that the pass has formed the record
  \<open>c\<close> of the next level as a cluster anchored at \<open>i\<close>.
\<close>

definition kids :: "env \<Rightarrow> options \<Rightarrow> int \<Rightarrow> tree \<Rightarrow> nat \<Rightarrow> int \<Rightarrow> nat list" where
  "kids e options zoom d i cid =
     filter (\<lambda>k. off_parent (d ! k) = cid)
       (kd_within e (coords d) (Some (off_x (d ! i), off_y (d ! i))) (cluster_radius options zoom))"

definition formed_at :: "env \<Rightarrow> options \<Rightarrow> int \<Rightarrow> int \<Rightarrow> tree \<Rightarrow> cells \<Rightarrow> nat \<Rightarrow> bool" where
  "formed_at e options n zoom d c i =
     (i < length d \<and> zle (off_zoom (d ! i)) zoom \<and> off_id c = encode_id i zoom n \<and>
      1 < off_num c \<and> 2 \<le> length (kids e options zoom d i (off_id c)) \<and>
      off_num c = sum_list (map (\<lambda>k. off_num (d ! k)) (kids e options zoom d i (off_id c))))"

text \<open>
  What holds of the array \<open>d\<close> of the level and of \<open>nextData\<close> between two rounds of a
  pass: a record that the pass has not visited has no parent; a parent is the identifier
  of a cluster anchored at a visited record; every record of \<open>nextData\<close> has no parent and
  is the copy of a visited record or a formed cluster; and every visited record was copied
  or is among the records that a formed cluster absorbed.
\<close>

definition pass_inv :: "env \<Rightarrow> options \<Rightarrow> int \<Rightarrow> int \<Rightarrow> tree \<Rightarrow> tree \<Rightarrow> bool" where
  "pass_inv e options n zoom d nx =
     ((\<forall>k < length d. \<not> zle (off_zoom (d ! k)) zoom \<longrightarrow> off_parent (d ! k) = - 1) \<and>
      (\<forall>k < length d. off_parent (d ! k) \<noteq> - 1 \<longrightarrow>
         (\<exists>i < length d. zle (off_zoom (d ! i)) zoom \<and> off_parent (d ! k) = encode_id i zoom n)) \<and>
      (\<forall>c \<in> set nx. off_parent c = - 1 \<and>
         ((\<exists>k < length d. zle (off_zoom (d ! k)) zoom \<and> static c = static (d ! k)) \<or>
          (\<exists>i. formed_at e options n zoom d c i))) \<and>
      (\<forall>k < length d. zle (off_zoom (d ! k)) zoom \<longrightarrow>
         (\<exists>c \<in> set nx. static c = static (d ! k)) \<or>
         (\<exists>c \<in> set nx. \<exists>i. formed_at e options n zoom d c i \<and>
            k \<in> set (kids e options zoom d i (off_id c)))))"

text \<open>
  The lineage between the final array \<open>d\<close> of a level and the records \<open>t\<close> of the next
  coarser level, after the pass at \<open>zoom\<close>: every record of \<open>t\<close> is the copy of a record of
  \<open>d\<close> or a cluster formed from records of \<open>d\<close>, and every record of \<open>d\<close> was copied or
  absorbed.
\<close>

definition lineage :: "env \<Rightarrow> options \<Rightarrow> int \<Rightarrow> int \<Rightarrow> tree \<Rightarrow> tree \<Rightarrow> bool" where
  "lineage e options n zoom d t =
     ((\<forall>c \<in> set t. (\<exists>k < length d. static c = static (d ! k)) \<or>
                     (\<exists>i. formed_at e options n zoom d c i)) \<and>
      (\<forall>k < length d.
         (\<exists>c \<in> set t. static c = static (d ! k)) \<or>
         (\<exists>c \<in> set t. \<exists>i. formed_at e options n zoom d c i \<and>
            k \<in> set (kids e options zoom d i (off_id c)))))"

text \<open>
  The level of the input points: every record stands for one point and carries the position
  of an input point, and every position occurs.
\<close>

definition leaf_level :: "int \<Rightarrow> tree \<Rightarrow> bool" where
  "leaf_level n t =
     ((\<forall>c \<in> set t. off_num c = 1 \<and> 0 \<le> off_id c \<and> off_id c < n) \<and>
      (\<forall>p. 0 \<le> p \<and> p < n \<longrightarrow> (\<exists>c \<in> set t. off_id c = p)))"

text \<open>
  A built hierarchy: the zooms fit the identifier encoding, every level from \<open>minZoom\<close> to
  \<open>maxZoom + 1\<close> exists and holds all points, the level \<open>maxZoom + 1\<close> is the level of the
  input points, and every two neighbouring levels are in lineage.
\<close>

definition built :: "env \<Rightarrow> 'p state \<Rightarrow> bool" where
  "built e st =
     (0 \<le> minZoom (opts st) \<and> maxZoom (opts st) \<le> 30 \<and> length (points st) < 2 ^ 26 \<and>
      (\<forall>k. minZoom (opts st) \<le> k \<and> k \<le> maxZoom (opts st) + 1 \<longrightarrow>
         (\<exists>t. trees st k = Some t \<and> (\<forall>c \<in> set t. 1 \<le> off_num c) \<and>
              total t = int (length (points st)))) \<and>
      (\<exists>t. trees st (maxZoom (opts st) + 1) = Some t \<and> leaf_level (int (length (points st))) t) \<and>
      (\<forall>z. minZoom (opts st) \<le> z \<and> z \<le> maxZoom (opts st) \<longrightarrow>
         (\<exists>d t. trees st (z + 1) = Some d \<and> trees st z = Some t \<and>
              lineage e (opts st) (int (length (points st))) z d t)))"

text \<open>
  A valid cluster id: the identifier of a record that stands for more than one point, at
  a level that \<open>getClusters\<close> can return.
\<close>

definition valid_cluster :: "'p state \<Rightarrow> cells \<Rightarrow> bool" where
  "valid_cluster st c =
     (\<exists>k t. minZoom (opts st) \<le> k \<and> k \<le> maxZoom (opts st) + 1 \<and> trees st k = Some t \<and>
        c \<in> set t \<and> 1 < off_num c)"

section \<open>Leaves\<close>

text \<open>
  A limit that is absent (\<open>Infinity\<close>) or a natural number, as \<open>getLeaves\<close> receives it;
  the part of a list of leaves that fits under the limit when \<open>have\<close> leaves are already
  collected; and whether there is room for one more.
\<close>

fun lim_of :: "nat option \<Rightarrow> jsnum" where
  "lim_of None = PosInf"
| "lim_of (Some l) = Num (of_nat l)"

fun cap :: "nat option \<Rightarrow> nat \<Rightarrow> 'a list \<Rightarrow> 'a list" where
  "cap None have xs = xs"
| "cap (Some l) have xs = take (l - have) xs"

fun room :: "nat option \<Rightarrow> nat \<Rightarrow> bool" where
  "room None have = True"
| "room (Some l) have = (have < l)"

text \<open>
  All leaves below a cluster id, in the order of the descent of \<open>_appendLeaves\<close>, taken
  without a limit at a depth that suffices for every level; the leaves of a result of a
  query, and of a record.
\<close>

definition dfs :: "env \<Rightarrow> 'p state \<Rightarrow> int \<Rightarrow> feature list" where
  "dfs e st cid =
     (case appendLeaves (nat (maxZoom (opts st) + 1)) e st PosInf (Num 0) []
             (Some (Num (of_int cid))) (Num 0) of
        Some (Inr (r, s)) \<Rightarrow> r
      | _ \<Rightarrow> [])"

definition leaves_under :: "env \<Rightarrow> 'p state \<Rightarrow> feature \<Rightarrow> feature list" where
  "leaves_under e st f = (case f of PointRef p \<Rightarrow> [PointRef p] | ClusterF j \<Rightarrow> dfs e st (cluster_id j))"

definition leaves_of :: "env \<Rightarrow> 'p state \<Rightarrow> cells \<Rightarrow> feature list" where
  "leaves_of e st c = leaves_under e st (project c)"

text \<open>
  What the descent delivers for a record from the depth \<open>m\<close> on: as many leaves as the
  record counts points, all of them input points, and for a cluster, under any limit that
  leaves room, the leaves that fit appended to the result, with nothing skipped.
\<close>

definition leaves_ok :: "env \<Rightarrow> 'p state \<Rightarrow> cells \<Rightarrow> nat \<Rightarrow> bool" where
  "leaves_ok e st c m =
     (length (leaves_of e st c) = nat (off_num c) \<and>
      (\<forall>f \<in> set (leaves_of e st c). \<exists>p. f = PointRef p \<and> 0 \<le> p \<and> p < int (length (points st))) \<and>
      (1 < off_num c \<longrightarrow>
         (\<forall>depth lm res. m \<le> depth \<and> room lm (length res) \<longrightarrow>
            appendLeaves depth e st (lim_of lm) (Num 0) res (Some (Num (of_int (off_id c))))
                (Num 0) =
              Some (Inr (res @ cap lm (length res) (leaves_of e st c), Num 0)))))"

section \<open>Rounding\<close>

text \<open>Rounding to nearest keeps the order, fixes what the format holds, and holds every
  integer up to \<open>2 ^ p\<close>.\<close>

lemma round_even_of_int: "round_even (of_int m) = m"
  by (simp add: round_even_def)

lemma round_even_ge: "\<lfloor>x\<rfloor> \<le> round_even x"
  by (simp add: round_even_def Let_def)

lemma round_even_le: "round_even x \<le> \<lfloor>x\<rfloor> + 1"
  by (simp add: round_even_def Let_def)

lemma round_even_mono:
  assumes "x \<le> y"
  shows "round_even x \<le> round_even y"
proof (cases "\<lfloor>x\<rfloor> = \<lfloor>y\<rfloor>")
  case True
  then show ?thesis using assms by (auto simp add: round_even_def Let_def)
next
  case False
  then have "\<lfloor>x\<rfloor> + 1 \<le> \<lfloor>y\<rfloor>" using floor_mono [OF assms] by simp
  then show ?thesis using round_even_le [of x] round_even_ge [of y] by linarith
qed

lemma round_even_minus: "round_even (- x) = - round_even x"
proof (cases "x = of_int \<lfloor>x\<rfloor>")
  case True
  then obtain m where "x = of_int m" ..
  then show ?thesis using round_even_of_int [of m] round_even_of_int [of "- m"] by simp
next
  case False
  have lo: "of_int \<lfloor>x\<rfloor> < x" using False of_int_floor_le [of x] by linarith
  have hi: "x < of_int \<lfloor>x\<rfloor> + 1" by linarith
  have f: "\<lfloor>- x\<rfloor> = - \<lfloor>x\<rfloor> - 1" using lo hi by (intro floor_unique) simp_all
  define g where "g = \<lfloor>x\<rfloor>"
  define d where "d = x - of_int g"
  have d: "- x - of_int (- g - 1) = 1 - d" by (simp add: d_def)
  have a: "round_even x = (if d < 1 / 2 then g else if 1 / 2 < d then g + 1
      else if even g then g else g + 1)"
    by (simp add: round_even_def Let_def g_def d_def)
  have b: "round_even (- x) = (if 1 - d < 1 / 2 then - g - 1 else if 1 / 2 < 1 - d then - g
      else if even (- g - 1) then - g - 1 else - g)"
    unfolding round_even_def Let_def f g_def [symmetric] d by simp
  consider "d < 1 / 2" | "d = 1 / 2" | "1 / 2 < d" by linarith
  then show ?thesis
  proof cases
    case 1
    then show ?thesis unfolding a b by simp
  next
    case 2
    then show ?thesis unfolding a b by simp
  next
    case 3
    then show ?thesis unfolding a b by simp
  qed
qed

lemma pw_less_iff: "((2::rat) powi a < 2 powi b) = (a < b)"
  using power_int_strict_increasing [of a b "2::rat"] power_int_increasing [of b a "2::rat"]
  by (cases "a < b") auto

lemma pw_le_iff: "((2::rat) powi a \<le> 2 powi b) = (a \<le> b)"
  using power_int_strict_increasing [of b a "2::rat"] power_int_increasing [of a b "2::rat"]
  by (cases "a \<le> b") auto

lemma pw_pos: "0 < (2::rat) powi a"
  by simp

lemma expo_bounds:
  assumes "x \<noteq> 0"
  shows "2 powi (expo x) \<le> \<bar>x\<bar>" and "\<bar>x\<bar> < 2 powi (expo x + 1)"
proof -
  obtain a b where q: "quotient_of \<bar>x\<bar> = (a, b)" by (cases "quotient_of \<bar>x\<bar>")
  have b: "0 < b" using quotient_of_denom_pos [OF q] .
  have x: "\<bar>x\<bar> = of_int a / of_int b" using quotient_of_div [OF q] .
  have a: "0 < a"
  proof -
    have "0 < \<bar>x\<bar>" using assms by simp
    then have "0 < (of_int a :: rat) / of_int b" using x by simp
    then show ?thesis using b by (simp add: zero_less_divide_iff)
  qed
  let ?la = "bitlen a" and ?lb = "bitlen b"
  note ba = bitlen_bounds [OF a] and bb = bitlen_bounds [OF b]
  have la: "1 \<le> ?la" and lb: "1 \<le> ?lb" using a b bitlen_nonneg [of a] bitlen_nonneg [of b]
      bitlen_eq_zero_iff [of a] bitlen_eq_zero_iff [of b] by linarith+
  have pa: "(2::rat) powi ?la = 2 ^ nat ?la" "(2::rat) powi (?la - 1) = 2 ^ nat (?la - 1)"
    and pb: "(2::rat) powi ?lb = 2 ^ nat ?lb" "(2::rat) powi (?lb - 1) = 2 ^ nat (?lb - 1)"
    using la lb by (simp_all add: power_int_def)
  have ra: "(2::rat) powi (?la - 1) \<le> of_int a" "of_int a < (2::rat) powi ?la"
  proof -
    have "of_int (2 ^ nat (?la - 1)) \<le> (of_int a :: rat)" using ba by (subst of_int_le_iff) simp
    then show "(2::rat) powi (?la - 1) \<le> of_int a" unfolding pa by simp
    have "(of_int a :: rat) < of_int (2 ^ nat ?la)" using ba by (subst of_int_less_iff) simp
    then show "of_int a < (2::rat) powi ?la" unfolding pa by simp
  qed
  have rb: "(2::rat) powi (?lb - 1) \<le> of_int b" "of_int b < (2::rat) powi ?lb"
  proof -
    have "of_int (2 ^ nat (?lb - 1)) \<le> (of_int b :: rat)" using bb by (subst of_int_le_iff) simp
    then show "(2::rat) powi (?lb - 1) \<le> of_int b" unfolding pb by simp
    have "(of_int b :: rat) < of_int (2 ^ nat ?lb)" using bb by (subst of_int_less_iff) simp
    then show "of_int b < (2::rat) powi ?lb" unfolding pb by simp
  qed
  have b0: "0 < (of_int b :: rat)" using b by simp
  have up: "\<bar>x\<bar> < 2 powi (?la - ?lb + 1)"
  proof -
    have "of_int a * (2::rat) powi (?lb - 1) < 2 powi ?la * of_int b"
      using ra(2) rb(1) a b0 by (intro mult_less_le_imp_less) simp_all
    then have "of_int a / of_int b < (2::rat) powi ?la / 2 powi (?lb - 1)"
      using b0 by (simp add: divide_simps mult.commute)
    then show ?thesis unfolding x by (simp add: power_int_diff power_int_add)
  qed
  have lo: "2 powi (?la - ?lb - 1) \<le> \<bar>x\<bar>"
  proof -
    have "(2::rat) powi (?la - 1) * of_int b \<le> of_int a * 2 powi ?lb"
      using ra(1) rb(2) a b0 by (intro mult_mono) simp_all
    then have "(2::rat) powi (?la - 1) / 2 powi ?lb \<le> of_int a / of_int b"
      using b0 by (simp add: divide_simps mult.commute)
    then show ?thesis unfolding x by (simp add: power_int_diff)
  qed
  have e: "expo x = (if 2 powi (?la - ?lb) \<le> \<bar>x\<bar> then ?la - ?lb else ?la - ?lb - 1)"
    by (simp add: expo_def q Let_def)
  show "2 powi (expo x) \<le> \<bar>x\<bar>" unfolding e using lo by simp
  show "\<bar>x\<bar> < 2 powi (expo x + 1)" unfolding e using up by (simp add: not_le)
qed

lemma expo_eqI:
  assumes "2 powi e \<le> \<bar>x\<bar>" "\<bar>x\<bar> < 2 powi (e + 1)"
  shows "expo x = e"
proof -
  have "0 < \<bar>x\<bar>" using assms(1) pw_pos [of e] by linarith
  then have x: "x \<noteq> 0" by simp
  note b = expo_bounds [OF x]
  have "(2::rat) powi e < 2 powi (expo x + 1)" using assms(1) b(2) by simp
  then have 1: "e < expo x + 1" by (simp only: pw_less_iff)
  have "(2::rat) powi expo x < 2 powi (e + 1)" using assms(2) b(1) by simp
  then have 2: "expo x < e + 1" by (simp only: pw_less_iff)
  show ?thesis using 1 2 by simp
qed

lemma expo_minus: "expo (- x) = expo x"
  by (simp add: expo_def)

lemma expo_mono:
  assumes "x \<noteq> 0" "\<bar>x\<bar> \<le> \<bar>y\<bar>"
  shows "expo x \<le> expo y"
proof -
  have y: "y \<noteq> 0" using assms by auto
  have "(2::rat) powi expo x < 2 powi (expo y + 1)"
    using expo_bounds(1) [OF assms(1)] expo_bounds(2) [OF y] assms(2) by simp
  then have "expo x < expo y + 1" by (simp only: pw_less_iff)
  then show ?thesis by simp
qed


lemma rnd_zero: "rnd p emin 0 = 0"
  by (simp add: rnd_def)

lemma rnd_minus: "rnd p emin (- x) = - rnd p emin x"
  by (simp add: rnd_def expo_minus round_even_minus Let_def)

lemma pw_nat: "0 \<le> k \<Longrightarrow> (2::rat) powi k = of_int (2 ^ nat k)"
  by (simp add: power_int_def)

lemma rnd_grid_strict:
  assumes x: "x = of_int m * 2 powi k" and m: "\<bar>m\<bar> < 2 ^ nat p" and k: "emin - p + 1 \<le> k"
    and p: "1 \<le> p"
  shows "rnd p emin x = x"
proof (cases "x = 0")
  case True
  then show ?thesis by (simp add: rnd_zero)
next
  case False
  define j where "j = max (expo x) emin - p + 1"
  have "\<bar>x\<bar> = of_int \<bar>m\<bar> * 2 powi k" unfolding x by (simp add: abs_mult)
  also have "\<dots> < of_int (2 ^ nat p) * 2 powi k"
    using m by (intro mult_strict_right_mono) (simp_all only: of_int_less_iff pw_pos)
  also have "\<dots> = 2 powi (p + k)" using p by (simp add: power_int_add pw_nat)
  finally have "(2::rat) powi expo x < 2 powi (p + k)" using expo_bounds(1) [OF False] by simp
  then have "expo x < p + k" by (simp only: pw_less_iff)
  then have jk: "j \<le> k" using k by (simp add: j_def)
  have "x / 2 powi j = of_int m * 2 powi (k - j)" unfolding x by (simp add: power_int_diff)
  also have "\<dots> = of_int (m * 2 ^ nat (k - j))" using jk by (simp add: pw_nat)
  finally have q: "x / 2 powi j = of_int (m * 2 ^ nat (k - j))" .
  have "rnd p emin x = of_int (round_even (x / 2 powi j)) * 2 powi j"
    using False by (simp add: rnd_def Let_def j_def)
  also have "\<dots> = x / 2 powi j * 2 powi j" unfolding q round_even_of_int ..
  also have "\<dots> = x" by simp
  finally show ?thesis .
qed

lemma rnd_grid:
  assumes x: "x = of_int m * 2 powi k" and m: "\<bar>m\<bar> \<le> 2 ^ nat p" and k: "emin - p + 1 \<le> k"
    and p: "1 \<le> p"
  shows "rnd p emin x = x"
proof (cases "\<bar>m\<bar> < 2 ^ nat p")
  case True
  then show ?thesis using rnd_grid_strict [OF x _ k p] by simp
next
  case False
  then have e: "\<bar>m\<bar> = 2 ^ nat p" using m by simp
  obtain n where n: "nat p = Suc n" using p by (cases "nat p") simp_all
  define m' where "m' = (if 0 \<le> m then 2 ^ n else - (2 ^ n) :: int)"
  have mm: "m = m' * 2" using e unfolding n m'_def by (auto split: if_splits)
  have x': "x = of_int m' * 2 powi (k + 1)" unfolding x mm by (simp add: power_int_add)
  have "\<bar>m'\<bar> < 2 ^ nat p" unfolding n m'_def by simp
  moreover have "emin - p + 1 \<le> k + 1" using k by simp
  ultimately show ?thesis using rnd_grid_strict [OF x' _ _ p] by simp
qed

lemma rnd_repr:
  assumes p: "1 \<le> p"
  shows "\<exists>m k. rnd p emin x = of_int m * 2 powi k \<and> \<bar>m\<bar> \<le> 2 ^ nat p \<and> emin - p + 1 \<le> k"
proof (cases "x = 0")
  case True
  then show ?thesis by (intro exI [of _ 0] exI [of _ "emin - p + 1"]) (simp add: rnd_zero)
next
  case False
  define j where "j = max (expo x) emin - p + 1"
  define y where "y = x / 2 powi j"
  have r: "rnd p emin x = of_int (round_even y) * 2 powi j"
    using False by (simp add: rnd_def Let_def j_def y_def)
  have "\<bar>y\<bar> = \<bar>x\<bar> / 2 powi j" by (simp add: y_def abs_divide)
  also have "\<dots> < 2 powi (expo x + 1) / 2 powi j"
    using expo_bounds(2) [OF False] by (intro divide_strict_right_mono) simp_all
  also have "\<dots> = 2 powi (expo x + 1 - j)" by (simp add: power_int_diff)
  also have "\<dots> \<le> 2 powi p" by (simp only: pw_le_iff) (simp add: j_def)
  also have "\<dots> = of_int (2 ^ nat p)" using p by (simp add: pw_nat)
  finally have b: "\<bar>y\<bar> < of_int (2 ^ nat p)" .
  have "round_even y \<le> round_even (of_int (2 ^ nat p))" using b by (intro round_even_mono) simp
  moreover have "round_even (of_int (- (2 ^ nat p))) \<le> round_even y"
    using b by (intro round_even_mono) simp
  ultimately have "\<bar>round_even y\<bar> \<le> 2 ^ nat p" unfolding round_even_of_int by simp
  moreover have "emin - p + 1 \<le> j" by (simp add: j_def)
  ultimately show ?thesis using r by blast
qed

lemma rnd_idem: "1 \<le> p \<Longrightarrow> rnd p emin (rnd p emin x) = rnd p emin x"
  using rnd_repr [of p emin x] rnd_grid [of "rnd p emin x" _ _ p emin] by blast

lemma rnd_nonneg:
  assumes "0 \<le> x"
  shows "0 \<le> rnd p emin x"
proof (cases "x = 0")
  case True
  then show ?thesis by (simp add: rnd_zero)
next
  case False
  define q :: rat where "q = 2 powi (max (expo x) emin - p + 1)"
  have q: "0 < q" by (simp add: q_def)
  have "0 \<le> x / q" using assms q by simp
  then have "0 \<le> \<lfloor>x / q\<rfloor>" by simp
  then have "0 \<le> round_even (x / q)" using round_even_ge [of "x / q"] by linarith
  then have "0 \<le> of_int (round_even (x / q)) * q" using q by simp
  then show ?thesis using False by (simp add: rnd_def Let_def q_def)
qed


lemma rnd_upper:
  assumes x: "0 < x" and p: "1 \<le> p"
  shows "rnd p emin x \<le> 2 powi (max (expo x) emin + 1)"
proof -
  define E where "E = max (expo x) emin"
  define q :: rat where "q = 2 powi (E - p + 1)"
  have q: "0 < q" by (simp add: q_def)
  have x0: "x \<noteq> 0" using x by simp
  have "x < 2 powi (expo x + 1)" using expo_bounds(2) [OF x0] x by simp
  also have "\<dots> \<le> 2 powi (E + 1)" by (simp only: pw_le_iff) (simp add: E_def)
  finally have "x / q \<le> 2 powi (E + 1) / q" using q by (simp add: divide_right_mono)
  also have "\<dots> = 2 powi p" by (simp add: q_def power_int_diff [symmetric])
  also have "\<dots> = of_int (2 ^ nat p)" using p by (simp add: pw_nat)
  finally have "round_even (x / q) \<le> round_even (of_int (2 ^ nat p))" by (rule round_even_mono)
  then have "(of_int (round_even (x / q)) :: rat) \<le> of_int (2 ^ nat p)"
    unfolding round_even_of_int by (simp only: of_int_le_iff)
  then have "of_int (round_even (x / q)) * q \<le> of_int (2 ^ nat p) * q"
    using q by (simp add: mult_right_mono)
  also have "of_int (2 ^ nat p) * q = 2 powi p * q" using p by (simp add: pw_nat)
  also have "\<dots> = 2 powi (E + 1)" by (simp add: q_def power_int_add [symmetric])
  finally show ?thesis using x0 by (simp add: rnd_def Let_def q_def E_def)
qed

lemma rnd_lower:
  assumes y: "0 < y" and e: "emin \<le> expo y" and p: "1 \<le> p"
  shows "2 powi (expo y) \<le> rnd p emin y"
proof -
  define q :: rat where "q = 2 powi (expo y - p + 1)"
  have q: "0 < q" by (simp add: q_def)
  have y0: "y \<noteq> 0" using y by simp
  have "2 powi (expo y) \<le> y" using expo_bounds(1) [OF y0] y by simp
  then have "2 powi (expo y) / q \<le> y / q" using q by (simp add: divide_right_mono)
  moreover have "2 powi (expo y) / q = 2 powi (p - 1)"
    by (simp add: q_def power_int_diff [symmetric])
  moreover have "(2::rat) powi (p - 1) = of_int (2 ^ nat (p - 1))" using p by (simp add: pw_nat)
  ultimately have "round_even (of_int (2 ^ nat (p - 1))) \<le> round_even (y / q)"
    by (intro round_even_mono) simp
  then have "(of_int (2 ^ nat (p - 1)) :: rat) \<le> of_int (round_even (y / q))"
    unfolding round_even_of_int by (simp only: of_int_le_iff)
  then have "of_int (2 ^ nat (p - 1)) * q \<le> of_int (round_even (y / q)) * q"
    using q by (simp add: mult_right_mono)
  moreover have "of_int (2 ^ nat (p - 1)) * q = 2 powi (p - 1) * q" using p by (simp add: pw_nat)
  moreover have "2 powi (p - 1) * q = 2 powi (expo y)" by (simp add: q_def power_int_add [symmetric])
  ultimately have "2 powi (expo y) \<le> of_int (round_even (y / q)) * q" by simp
  moreover have "max (expo y) emin = expo y" using e by simp
  ultimately show ?thesis using y0 by (simp add: rnd_def Let_def q_def)
qed

lemma rnd_mono_pos:
  assumes x: "0 < x" and xy: "x \<le> y" and p: "1 \<le> p"
  shows "rnd p emin x \<le> rnd p emin y"
proof -
  have y: "0 < y" using x xy by simp
  have x0: "x \<noteq> 0" and y0: "y \<noteq> 0" using x y by simp_all
  have ee: "expo x \<le> expo y" using x xy by (intro expo_mono) simp_all
  show ?thesis
  proof (cases "max (expo x) emin = max (expo y) emin")
    case True
    define q :: rat where "q = 2 powi (max (expo x) emin - p + 1)"
    have q: "0 < q" by (simp add: q_def)
    have "x / q \<le> y / q" using xy q by (simp add: divide_right_mono)
    then have "round_even (x / q) \<le> round_even (y / q)" by (rule round_even_mono)
    then have "(of_int (round_even (x / q)) :: rat) \<le> of_int (round_even (y / q))"
      by (simp only: of_int_le_iff)
    then have "of_int (round_even (x / q)) * q \<le> of_int (round_even (y / q)) * q"
      using q by (simp add: mult_right_mono)
    then show ?thesis using x0 y0 True by (simp add: rnd_def Let_def q_def)
  next
    case False
    then have lt: "max (expo x) emin < expo y" and ey: "emin \<le> expo y" using ee by auto
    have "rnd p emin x \<le> 2 powi (max (expo x) emin + 1)" using rnd_upper [OF x p] .
    also have "\<dots> \<le> 2 powi (expo y)" using lt by (simp only: pw_le_iff)
    also have "\<dots> \<le> rnd p emin y" using rnd_lower [OF y ey p] .
    finally show ?thesis .
  qed
qed

lemma rnd_mono:
  assumes xy: "x \<le> y" and p: "1 \<le> p"
  shows "rnd p emin x \<le> rnd p emin y"
proof -
  consider "0 < x" | "y < 0" | "x \<le> 0" "0 \<le> y" by linarith
  then show ?thesis
  proof cases
    case 1
    then show ?thesis using rnd_mono_pos [OF _ xy p] by simp
  next
    case 2
    then have "0 < - y" "- y \<le> - x" using xy by simp_all
    from rnd_mono_pos [OF this p, of emin] show ?thesis by (simp add: rnd_minus)
  next
    case 3
    have "0 \<le> rnd p emin (- x)" using 3(1) by (intro rnd_nonneg) simp
    then have "rnd p emin x \<le> 0" by (simp add: rnd_minus)
    moreover have "0 \<le> rnd p emin y" using 3(2) by (rule rnd_nonneg)
    ultimately show ?thesis by simp
  qed
qed

lemma rnd_of_int:
  assumes "\<bar>n\<bar> \<le> 2 ^ nat p" "emin - p + 1 \<le> 0" "1 \<le> p"
  shows "rnd p emin (of_int n) = of_int n"
  using rnd_grid [of "of_int n" n 0 p emin] assms by simp

lemma rnd_int_valued:
  assumes e: "emin \<le> 0" and p: "1 \<le> p"
  shows "\<exists>z. rnd p emin (of_int n) = of_int z"
proof (cases "n = 0")
  case True
  then show ?thesis by (intro exI [of _ 0]) (simp add: rnd_zero)
next
  case False
  define x :: rat where "x = of_int n"
  have x0: "x \<noteq> 0" using False by (simp add: x_def)
  have "1 \<le> \<bar>n\<bar>" using False by simp
  then have "(of_int 1 :: rat) \<le> of_int \<bar>n\<bar>" by (simp only: of_int_le_iff)
  then have "(2::rat) powi 0 \<le> \<bar>x\<bar>" by (simp add: x_def)
  then have "(2::rat) powi 0 < 2 powi (expo x + 1)" using expo_bounds(2) [OF x0] by simp
  then have "0 < expo x + 1" by (simp only: pw_less_iff)
  then have e0: "0 \<le> expo x" by simp
  define j where "j = expo x - p + 1"
  have mx: "max (expo x) emin = expo x" using e e0 by simp
  have r: "rnd p emin x = of_int (round_even (x / 2 powi j)) * 2 powi j"
    using x0 unfolding rnd_def Let_def mx j_def by simp
  show ?thesis
  proof (cases "0 \<le> j")
    case True
    have "rnd p emin x = of_int (round_even (x / 2 powi j) * 2 ^ nat j)"
      unfolding r using True by (simp add: pw_nat)
    then show ?thesis unfolding x_def by blast
  next
    case False
    have "x / 2 powi j = x * 2 powi (- j)" by (simp add: power_int_minus divide_inverse)
    also have "\<dots> = of_int (n * 2 ^ nat (- j))" using False by (simp add: x_def pw_nat)
    finally have "rnd p emin x = x / 2 powi j * 2 powi j" unfolding r by (simp only: round_even_of_int)
    then have "rnd p emin x = of_int n" by (simp add: x_def)
    then show ?thesis unfolding x_def by blast
  qed
qed

lemma float32_mono: "x \<le> y \<Longrightarrow> float32 x \<le> float32 y"
  unfolding float32_def by (rule rnd_mono) simp_all

lemma float64_mono: "x \<le> y \<Longrightarrow> float64 x \<le> float64 y"
  unfolding float64_def by (rule rnd_mono) simp_all

lemma float32_idem: "float32 (float32 x) = float32 x"
  unfolding float32_def by (rule rnd_idem) simp

lemma float32_zero: "float32 0 = 0"
  by (simp add: float32_def rnd_zero)

lemma float64_nonneg: "0 \<le> x \<Longrightarrow> 0 \<le> float64 x"
  unfolding float64_def by (rule rnd_nonneg)

lemma float32_of_int: "\<bar>n\<bar> \<le> 2 ^ 24 \<Longrightarrow> float32 (of_int n) = of_int n"
  unfolding float32_def by (rule rnd_of_int) simp_all

lemma float64_of_int: "\<bar>n\<bar> \<le> 2 ^ 53 \<Longrightarrow> float64 (of_int n) = of_int n"
  unfolding float64_def by (rule rnd_of_int) simp_all

lemma float32_int_valued: "\<exists>z. float32 (of_int n) = of_int z"
  unfolding float32_def by (rule rnd_int_valued) simp_all

lemma float64_single_times_int:
  assumes x: "float32 x = x" and n: "\<bar>n\<bar> \<le> 2 ^ 24"
  shows "float64 (x * of_int n) = x * of_int n"
proof -
  obtain m k where r: "float32 x = of_int m * 2 powi k" and m: "\<bar>m\<bar> \<le> 2 ^ 24" and k: "- 149 \<le> k"
    using rnd_repr [of 24 "- 126" x] unfolding float32_def by auto
  have e: "x * of_int n = of_int (m * n) * 2 powi k" using r x by simp
  have "\<bar>m * n\<bar> \<le> 2 ^ 24 * 2 ^ 24" unfolding abs_mult using m n by (intro mult_mono) simp_all
  then have "\<bar>m * n\<bar> \<le> 2 ^ nat 53" by simp
  then show ?thesis unfolding float64_def using k by (intro rnd_grid [OF e]) simp_all
qed

lemma float64_single: "float32 x = x \<Longrightarrow> float64 x = x"
  using float64_single_times_int [of x 1] by simp

lemma f32i_of_int: "of_int (f32i n) = float32 (of_int n)"
proof -
  obtain z where z: "float32 (of_int n) = of_int z" using float32_int_valued by blast
  then show ?thesis by (simp add: f32i_def)
qed

lemma f32i_exact: "\<bar>n\<bar> \<le> 2 ^ 24 \<Longrightarrow> f32i n = n"
  by (simp add: f32i_def float32_of_int)

lemma f32i_idem: "f32i (f32i n) = f32i n"
proof -
  have "float32 (of_int (f32i n)) = float32 (of_int n)"
    unfolding f32i_of_int by (rule float32_idem)
  then show ?thesis unfolding f32i_def [of "f32i n"] by (simp add: f32i_def)
qed

lemma f32i_mono: "a \<le> b \<Longrightarrow> f32i a \<le> f32i b"
proof -
  assume "a \<le> b"
  then have "float32 (of_int a) \<le> float32 (of_int b)" by (intro float32_mono) simp
  then have "(of_int (f32i a) :: rat) \<le> of_int (f32i b)" by (simp only: f32i_of_int)
  then show ?thesis by (simp only: of_int_le_iff)
qed


section \<open>The identifier encoding\<close>

lemma toInt32_id: "- (2 ^ 31) \<le> v \<Longrightarrow> v < 2 ^ 31 \<Longrightarrow> toInt32 v = v"
  by (simp add: toInt32_def)

lemma shl5_small: "0 \<le> v \<Longrightarrow> v < 2 ^ 26 \<Longrightarrow> shl5 v = v * 32"
  by (simp add: shl5_def toInt32_id)

lemma decode_encode:
  assumes "i < 2 ^ 26" "0 \<le> zoom" "zoom \<le> 30"
  shows "getOriginId n (encode_id i zoom n) = int i"
    and "getOriginZoom n (encode_id i zoom n) = zoom + 1"
proof -
  have i: "int i < 2 ^ 26"
    using assms(1) by (metis of_nat_less_iff of_nat_numeral of_nat_power)
  then have s: "shl5 (int i) = int i * 32"
    by (simp add: shl5_small)
  have d: "encode_id i zoom n - n = int i * 32 + (zoom + 1)"
    by (simp add: encode_id_def s)
  have r: "- (2 ^ 31) \<le> int i * 32 + (zoom + 1)" "int i * 32 + (zoom + 1) < 2 ^ 31"
    using i assms(2,3) by simp_all
  show "getOriginId n (encode_id i zoom n) = int i"
    unfolding getOriginId_def sar5_def d toInt32_id [OF r] using assms(2,3) by simp
  show "getOriginZoom n (encode_id i zoom n) = zoom + 1"
    unfolding getOriginZoom_def rem32_def d using assms(2,3) i by simp
qed

text \<open>
  Claim C3, as the code has it. The five low bits of an identifier hold \<open>zoom + 1\<close>, so
  the round trip is lossless for the zooms 0 to 30 and for the anchor positions below
  \<open>2 ^ 26\<close> (the positions that \<open><< 5\<close> keeps non-negative in 32 bits): decoding the
  identifier gives the anchor position back, and gives \<open>zoom + 1\<close> as the origin zoom,
  whatever the number \<open>n\<close> of loaded points.
\<close>

theorem encode_id_round_trip:
  "i < 2 ^ 26 \<Longrightarrow> 0 \<le> zoom \<Longrightarrow> zoom \<le> 30 \<Longrightarrow>
     getOriginId n (encode_id i zoom n) = int i \<and>
     getOriginZoom n (encode_id i zoom n) = zoom + 1"
  by (simp add: decode_encode)

theorem encode_id_round_trip_witness:
  "(3::nat) < 2 ^ 26 \<and> (0::int) \<le> 30 \<and> (30::int) \<le> 30 \<and>
     getOriginId 7 (encode_id 3 30 7) = int 3 \<and>
     getOriginZoom 7 (encode_id 3 30 7) = 30 + 1"
  using encode_id_round_trip [of 3 30 7] by simp

text \<open>
  At zoom 31 the round trip of claim C3 is lost: the identifier of the cluster anchored at
  record 0 decodes to the anchor position 1 and the origin zoom 0.
\<close>

theorem encode_id_zoom_31_lost:
  "getOriginId 0 (encode_id 0 31 0) = 1 \<and> getOriginZoom 0 (encode_id 0 31 0) = 0"
  by (simp add: getOriginId_def getOriginZoom_def encode_id_def shl5_def sar5_def rem32_def
      toInt32_def)

section \<open>The constructor\<close>

text \<open>
  Claim C5, as the code has it. The constructor checks nothing about the zoom bounds: for
  every options value whose \<open>maxZoom\<close> is beyond the zooms that the encoding holds (and
  is a length that \<open>new Array\<close> accepts), it returns the instance with these options.
\<close>

theorem constructor_accepts_large_maxZoom:
  "31 < maxZoom (assign_options po) \<Longrightarrow> maxZoom (assign_options po) < 2 ^ 32 - 1 \<Longrightarrow>
     (constructor po :: error + 'p state) =
       Inr \<lparr>opts = assign_options po, trees = (\<lambda>z. None), points = []\<rparr>"
  by (simp add: constructor_def Let_def)

theorem constructor_accepts_large_maxZoom_witness:
  "31 < maxZoom (assign_options (no_options\<lparr>maxZoom_arg := Some 40\<rparr>)) \<and>
   maxZoom (assign_options (no_options\<lparr>maxZoom_arg := Some 40\<rparr>)) < 2 ^ 32 - 1 \<and>
   (constructor (no_options\<lparr>maxZoom_arg := Some 40\<rparr>) :: error + unit state) =
     Inr \<lparr>opts = assign_options (no_options\<lparr>maxZoom_arg := Some 40\<rparr>),
          trees = (\<lambda>z. None), points = []\<rparr>"
  using constructor_accepts_large_maxZoom [of "no_options\<lparr>maxZoom_arg := Some 40\<rparr>"]
  by (simp add: assign_options_def no_options_def)

text \<open>
  Against claim C5: constructing an instance with \<open>maxZoom = 40\<close> does not fail.
\<close>

theorem constructor_maxZoom_40:
  "(constructor (no_options\<lparr>maxZoom_arg := Some 40\<rparr>) :: error + unit state) =
     Inr \<lparr>opts = defaultOptions\<lparr>maxZoom := 40\<rparr>, trees = (\<lambda>z. None), points = []\<rparr>"
  by (simp add: constructor_def assign_options_def no_options_def defaultOptions_def)

section \<open>The radius of a pass\<close>

text \<open>
  Claim C2 at a configured \<open>scalingFunction\<close>. With the radius 40 and the scaling function
  \<open>2 ^ (- zoom)\<close> of the README, the claim gives the pass at zoom 2 the radius
  \<open>40 * (1 / 4) = 10\<close>; the pass uses \<open>40 / 2 = 20\<close>.
\<close>

theorem cluster_radius_ignores_scalingFunction:
  "cluster_radius
     (assign_options (no_options\<lparr>scalingFunction_arg := Some (\<lambda>z. 1 / 2 ^ nat z)\<rparr>)) 2 =
   Num 20"
  using float64_of_int [of 20]
  by (simp add: cluster_radius_def assign_options_def no_options_def defaultOptions_def
      jsdiv_def)

section \<open>Loading\<close>

text \<open>A pass writes only the cells at \<open>OFFSET_ZOOM\<close> and \<open>OFFSET_PARENT\<close> of its level.\<close>

lemma static_update_zoom: "map static (d[k := (d ! k)\<lparr>off_zoom := m\<rparr>]) = map static d"
  by (cases "length d \<le> k") (simp_all add: map_update static_def list_update_same_conv list_update_beyond)

lemma static_update_parent: "map static (d[k := (d ! k)\<lparr>off_parent := m\<rparr>]) = map static d"
  by (cases "length d \<le> k") (simp_all add: map_update static_def list_update_same_conv list_update_beyond)

lemma static_update_both:
  "map static (d[k := (d ! k)\<lparr>off_zoom := m, off_parent := c\<rparr>]) = map static d"
  by (cases "length d \<le> k") (simp_all add: map_update static_def list_update_same_conv list_update_beyond)

lemma merge_neighbors_static:
  "map static (fst (merge_neighbors zoom cid ks (d, wx, wy))) = map static d"
  by (induction ks arbitrary: d wx wy) (simp_all add: static_update_both)

lemma copy_neighbors_static:
  "map static (fst (copy_neighbors zoom ks (d, nx))) = map static d"
  by (induction ks arbitrary: d nx) (simp_all add: static_update_zoom)

lemma form_cluster_static:
  "map static (fst (form_cluster zoom cid i ks np (d, nx))) = map static d"
  using merge_neighbors_static [of zoom cid ks d]
  by (simp add: form_cluster_def static_update_parent split: prod.splits)
     (metis fst_conv static_update_parent)

lemma leave_unclustered_static:
  "map static (fst (leave_unclustered zoom i ks np (d, nx))) = map static d"
  by (simp add: leave_unclustered_def copy_neighbors_static)

lemma cluster_step_static:
  "map static (fst (cluster_step e options n zoom (d, nx) i)) = map static d"
  by (simp add: cluster_step_def Let_def form_cluster_static leave_unclustered_static
      static_update_zoom)

lemma cluster_steps_static:
  "map static (fst (foldl (cluster_step e options n zoom) (d, nx) is)) = map static d"
proof (induction "is" arbitrary: d nx)
  case Nil then show ?case by simp
next
  case (Cons i "is")
  obtain d' nx' where s: "cluster_step e options n zoom (d, nx) i = (d', nx')" by fastforce
  have "map static d' = map static d" using cluster_step_static [of e options n zoom d nx i] s by simp
  then show ?case using Cons.IH [of d' nx'] s by simp
qed

lemma cluster_static: "map static (fst (cluster e options n d zoom)) = map static d"
  by (simp add: cluster_def cluster_steps_static)

declare load_loop.simps [simp del]

lemma load_loop_opts: "opts (load_loop e st tree z) = opts st"
proof (induction e st tree z rule: load_loop.induct)
  case (1 e st tree z)
  show ?case
  proof (cases "minZoom (opts st) \<le> z")
    case True
    obtain d nx where c: "cluster e (opts st) (int (length (points st))) tree z = (d, nx)"
      by fastforce
    show ?thesis using "1.IH" [OF True c [symmetric]] True c
      by (simp add: load_loop.simps [of e st tree z])
  next
    case False
    then show ?thesis by (simp add: load_loop.simps [of e st tree z])
  qed
qed


lemma load_loop_trees_outside:
  "z + 1 < k \<or> k < minZoom (opts st) \<Longrightarrow> trees (load_loop e st tree z) k = trees st k"
proof (induction e st tree z rule: load_loop.induct)
  case (1 e st tree z)
  show ?case
  proof (cases "minZoom (opts st) \<le> z")
    case True
    obtain d nx where c: "cluster e (opts st) (int (length (points st))) tree z = (d, nx)"
      by fastforce
    show ?thesis using "1.IH" [OF True c [symmetric]] True c "1.prems"
      by (auto simp add: load_loop.simps [of e st tree z])
  next
    case False
    then show ?thesis by (simp add: load_loop.simps [of e st tree z])
  qed
qed

lemma load_loop_cong:
  "opts st1 = opts st2 \<Longrightarrow> points st1 = points st2 \<Longrightarrow>
   (\<forall>k. z < k \<or> k < minZoom (opts st1) \<longrightarrow> trees st1 k = trees st2 k) \<Longrightarrow>
   load_loop e st1 tree z = load_loop e st2 tree z"
proof (induction e st1 tree z arbitrary: st2 rule: load_loop.induct)
  case (1 e st1 tree z)
  show ?case
  proof (cases "minZoom (opts st1) \<le> z")
    case True
    obtain d nx where c: "cluster e (opts st1) (int (length (points st1))) tree z = (d, nx)"
      by fastforce
    let ?u1 = "st1\<lparr>trees := (trees st1)(z + 1 := Some d, z := Some (createTree nx))\<rparr>"
    let ?u2 = "st2\<lparr>trees := (trees st2)(z + 1 := Some d, z := Some (createTree nx))\<rparr>"
    have "load_loop e ?u1 (createTree nx) (z - 1) = load_loop e ?u2 (createTree nx) (z - 1)"
      using "1.prems" by (intro "1.IH" [OF True c [symmetric]]) auto
    then show ?thesis using True c "1.prems"(1,2)
      by (simp add: load_loop.simps [of e st1 tree z] load_loop.simps [of e st2 tree z])
  next
    case False
    then have "trees st1 = trees st2" using "1.prems"(3) by (intro ext) auto
    then have "st1 = st2" using "1.prems"(1,2) by simp
    then show ?thesis by simp
  qed
qed


lemma example_instance_opts:
  "opts example_instance =
     \<lparr>minZoom = 0, maxZoom = 4, minPoints = 2, radius = 40, nodeSize = 64, log_flag = False,
      scalingFunction = None\<rparr>"
  by (simp add: example_instance_def example_options_def assign_options_def no_options_def
      defaultOptions_def)



lemma coords_static: "coords d = map (\<lambda>s. (fst s, fst (snd s))) (map static d)"
  by (simp add: coords_def static_def)

lemma static_nth:
  assumes "map static d = map static d'" "k < length d'"
  shows "off_x (d ! k) = off_x (d' ! k)" "off_y (d ! k) = off_y (d' ! k)"
    "off_id (d ! k) = off_id (d' ! k)" "off_num (d ! k) = off_num (d' ! k)"
proof -
  have l: "length d = length d'" using assms(1) by (rule map_eq_imp_length_eq)
  have "map static d ! k = map static d' ! k" using assms(1) by simp
  then have "static (d ! k) = static (d' ! k)" using assms(2) l by simp
  then show "off_x (d ! k) = off_x (d' ! k)" "off_y (d ! k) = off_y (d' ! k)"
    "off_id (d ! k) = off_id (d' ! k)" "off_num (d ! k) = off_num (d' ! k)"
    by (simp_all add: static_def)
qed

lemma leaf_cells_length: "length (leaf_cells ps) = length ps"
  by (simp add: leaf_cells_def)

lemma leaf_cells_nth:
  "k < length ps \<Longrightarrow> leaf_cells ps ! k =
     \<lparr>off_x = float32 (fst (coordinates (ps ! k))), off_y = float32 (snd (coordinates (ps ! k))),
      off_zoom = Infinity, off_id = int k, off_parent = - 1, off_num = 1\<rparr>"
  by (simp add: leaf_cells_def)

text \<open>The records of up to \<open>2 ^ 24\<close> input points are stored as they are.\<close>

lemma store32_leaf:
  assumes "k \<le> 2 ^ 24"
  shows "store32 \<lparr>off_x = float32 x, off_y = float32 y, off_zoom = Infinity, off_id = int k,
    off_parent = - 1, off_num = 1\<rparr> =
    \<lparr>off_x = float32 x, off_y = float32 y, off_zoom = Infinity, off_id = int k,
    off_parent = - 1, off_num = 1\<rparr>"
proof -
  have "f32i (int k) = int k" "f32i (- 1) = - 1" "f32i 1 = 1"
    using assms by (simp_all add: f32i_exact)
  then show ?thesis by (simp add: store32_def float32_idem)
qed

lemma createTree_leaf_cells:
  assumes "length ps \<le> 2 ^ 24"
  shows "createTree (leaf_cells ps) = leaf_cells ps"
proof -
  have "store32 c = c" if c: "c \<in> set (leaf_cells ps)" for c
  proof -
    obtain k where k: "k < length ps" "c = leaf_cells ps ! k"
      using c by (auto simp add: in_set_conv_nth leaf_cells_length)
    show ?thesis unfolding k(2) leaf_cells_nth [OF k(1)] using k(1) assms
      by (intro store32_leaf) simp
  qed
  then show ?thesis unfolding createTree_def by (simp add: map_idI)
qed

lemma load_top_level:
  assumes n: "length ps \<le> 2 ^ 24"
  shows "\<exists>data. trees (load e st ps) (maxZoom (opts st) + 1) = Some data \<and>
     map static data = map static (leaf_cells ps)"
proof (cases "minZoom (opts st) \<le> maxZoom (opts st)")
  case True
  let ?s = "st\<lparr>points := ps,
    trees := (trees st)(maxZoom (opts st) + 1 := Some (createTree (leaf_cells ps)))\<rparr>"
  obtain d nx where c:
    "cluster e (opts st) (int (length ps)) (leaf_cells ps) (maxZoom (opts st)) = (d, nx)"
    by fastforce
  have "map static d = map static (leaf_cells ps)"
    using cluster_static [of e "opts st" "int (length ps)" "leaf_cells ps" "maxZoom (opts st)"] c
    by simp
  moreover have "trees (load e st ps) (maxZoom (opts st) + 1) = Some d"
    unfolding load_def Let_def createTree_leaf_cells [OF n]
    by (subst load_loop.simps) (simp add: True c load_loop_trees_outside)
  ultimately show ?thesis by blast
next
  case False
  then show ?thesis
    by (simp add: load_def Let_def createTree_leaf_cells [OF n] load_loop.simps)
qed

lemma limitZoom_top:
  "minZoom options \<le> maxZoom options + 1 \<Longrightarrow> of_int (maxZoom options + 1) \<le> zoom \<Longrightarrow>
     limitZoom options zoom = maxZoom options + 1"
proof -
  assume a: "minZoom options \<le> maxZoom options + 1" "of_int (maxZoom options + 1) \<le> zoom"
  have "maxZoom options + 1 \<le> \<lfloor>zoom\<rfloor>" using a(2) by (simp only: le_floor_iff)
  then show ?thesis using a(1) by (simp add: limitZoom_def min_def max_def)
qed

text \<open>
  Claim C6, as the code has it. The coordinates of the input points are rounded to single
  precision when they are loaded, and the position of a point in the input is kept in a
  \<open>Float32Array\<close>. Over an index that keeps its contract, for options with
  \<open>minZoom \<le> maxZoom + 1\<close> and for at most \<open>2 ^ 24\<close> points with coordinates in the range
  of single precision, \<open>getClusters\<close> at a zoom of at least \<open>maxZoom + 1\<close> returns input
  points only, one for each position that the range query finds among the coordinates of
  the level; these positions are exactly the input points whose rounded coordinates lie
  within the box, each once.
\<close>

theorem getClusters_above_maxZoom:
  assumes "range_ok e"
    and "minZoom (opts st) \<le> maxZoom (opts st) + 1"
    and "of_int (maxZoom (opts st) + 1) \<le> zoom"
    and "length ps \<le> 2 ^ 24" and "list_all in_range ps"
  shows "getClusters e (load e st ps) bbox zoom =
           Inr (map (\<lambda>k. PointRef (int k)) (kd_range e (coords (leaf_cells ps)) bbox)) \<and>
         distinct (kd_range e (coords (leaf_cells ps)) bbox) \<and>
         set (kd_range e (coords (leaf_cells ps)) bbox) =
           {k. k < length ps \<and>
               in_bbox bbox (float32 (fst (coordinates (ps ! k))),
                             float32 (snd (coordinates (ps ! k))))}"
proof -
  let ?cs = "coords (leaf_cells ps)"
  obtain data where d: "trees (load e st ps) (maxZoom (opts st) + 1) = Some data"
    and s: "map static data = map static (leaf_cells ps)"
    using load_top_level [OF assms(4)] by blast
  have o: "opts (load e st ps) = opts st" by (simp add: load_def Let_def load_loop_opts)
  have cs: "coords data = ?cs" using s by (simp add: coords_static)
  have r: "distinct (kd_range e ?cs bbox)"
    "set (kd_range e ?cs bbox) = {k. k < length ?cs \<and> in_bbox bbox (?cs ! k)}"
    using assms(1) unfolding range_ok_def by blast+
  have p: "project (data ! k) = PointRef (int k)" if "k \<in> set (kd_range e ?cs bbox)" for k
  proof -
    have k: "k < length (leaf_cells ps)" using that r(2) by (simp add: coords_def)
    then have "off_num (data ! k) = 1" "off_id (data ! k) = int k"
      using static_nth [OF s k] by (simp_all add: leaf_cells_nth leaf_cells_length)
    then show ?thesis by (simp add: project_def)
  qed
  have "getClusters e (load e st ps) bbox zoom =
      Inr (map (\<lambda>k. project (data ! k)) (kd_range e ?cs bbox))"
    using assms(2,3) d by (simp add: getClusters_def o limitZoom_top cs)
  also have "map (\<lambda>k. project (data ! k)) (kd_range e ?cs bbox) =
      map (\<lambda>k. PointRef (int k)) (kd_range e ?cs bbox)"
    using p by simp
  finally have 1: "getClusters e (load e st ps) bbox zoom =
           Inr (map (\<lambda>k. PointRef (int k)) (kd_range e ?cs bbox))" .
  have 3: "set (kd_range e ?cs bbox) = {k. k < length ps \<and>
               in_bbox bbox (float32 (fst (coordinates (ps ! k))),
                             float32 (snd (coordinates (ps ! k))))}"
    unfolding r(2) by (auto simp add: coords_def leaf_cells_length leaf_cells_nth)
  show ?thesis using 1 r(1) 3 by blast
qed

lemma scan_range_ok: "range_ok scan_env"
  by (auto simp add: range_ok_def scan_env_def scan_range_def)

theorem getClusters_above_maxZoom_witness:
  "range_ok scan_env \<and>
   minZoom (opts example_instance) \<le> maxZoom (opts example_instance) + 1 \<and>
   rat_of_int (maxZoom (opts example_instance) + 1) \<le> 7 \<and>
   length example_points \<le> 2 ^ 24 \<and> list_all in_range example_points \<and>
   getClusters scan_env (load scan_env example_instance example_points) (- 10, - 10, 10, 10) 7 =
     Inr [PointRef 0, PointRef 1]"
proof -
  have h: "minZoom (opts example_instance) \<le> maxZoom (opts example_instance) + 1"
    "rat_of_int (maxZoom (opts example_instance) + 1) \<le> 7"
    "length example_points \<le> 2 ^ 24"
    by (simp_all add: example_instance_opts example_points_def)
  have r: "list_all in_range example_points" by code_simp
  have v: "kd_range scan_env (coords (leaf_cells example_points)) (- 10, - 10, 10, 10) =
      [0, 1]"
    by code_simp
  show ?thesis
    using getClusters_above_maxZoom [OF scan_range_ok h r, of "(- 10, - 10, 10, 10)"]
      scan_range_ok h r
    by (simp add: v)
qed

section \<open>Children\<close>

text \<open>
  Claim C8. \<open>getChildren\<close> returns a result exactly when the level of the decoded origin
  zoom exists, the decoded anchor position is below the number of its records, and the
  neighbours of the anchor within \<open>radius / (originZoom - 1)\<close> whose parent is the cluster
  are not none; the result is these records, projected. Every other call fails, with the
  unknown-cluster error and no other. The option \<open>scalingFunction\<close> has no part in it.
\<close>

theorem getChildren_cases:
  "(getChildren e st clusterId = Inr children \<longleftrightarrow>
      (\<exists>data. trees st (getOriginZoom (int (length (points st))) clusterId) = Some data \<and>
         getOriginId (int (length (points st))) clusterId < int (length data) \<and>
         children = children_with_parent e st data clusterId \<and> children \<noteq> [])) \<and>
   (getChildren e st clusterId = Inl err \<longleftrightarrow>
      err = NoCluster \<and>
      (trees st (getOriginZoom (int (length (points st))) clusterId) = None \<or>
       (\<exists>data. trees st (getOriginZoom (int (length (points st))) clusterId) = Some data \<and>
          (int (length data) \<le> getOriginId (int (length (points st))) clusterId \<or>
           children_with_parent e st data clusterId = [])))) \<and>
   getChildren e (st\<lparr>opts := (opts st)\<lparr>scalingFunction := f\<rparr>\<rparr>) clusterId =
     getChildren e st clusterId"
  by (auto simp add: getChildren_def children_with_parent_def anchor_query_def Let_def
      split: option.splits)

section \<open>One pass of the hierarchy builder\<close>

lemma zgt_not_zle: "zgt m z = (\<not> zle m z)"
  by (cases m) auto

lemma sum_list_map_update:
  "k < length xs \<Longrightarrow>
     sum_list (map f (xs[k := v])) = sum_list (map f xs) - f (xs ! k) + (f v :: int)"
proof (induction xs arbitrary: k)
  case Nil then show ?case by simp
next
  case (Cons x xs) then show ?case by (cases k) simp_all
qed

lemma psum_mark:
  "k < length d \<Longrightarrow> \<not> zle (off_zoom (d ! k)) zoom \<Longrightarrow>
     off_zoom c = Zoom zoom \<Longrightarrow> off_num c = off_num (d ! k) \<Longrightarrow>
     psum zoom (d[k := c]) = psum zoom d + off_num (d ! k)"
  by (simp add: psum_def sum_list_map_update)

lemma psum_same:
  "off_zoom c = off_zoom (d ! k) \<Longrightarrow> off_num c = off_num (d ! k) \<Longrightarrow>
     psum zoom (d[k := c]) = psum zoom d"
  by (cases "length d \<le> k") (simp_all add: psum_def sum_list_map_update list_update_beyond)

lemma count_neighbors_fresh: "count_neighbors d zoom acc ks = acc + fresh_count d zoom ks"
  unfolding count_neighbors_def fresh_count_def
  by (induction ks arbitrary: acc) (simp_all add: count_step_def zgt_not_zle)

lemma fresh_count_update:
  "k \<notin> set ks \<Longrightarrow> fresh_count (d[k := c]) zoom ks = fresh_count d zoom ks"
  unfolding fresh_count_def by (induction ks) auto

lemma fresh_count_nonneg:
  "\<forall>k \<in> set ks. 0 \<le> off_num (d ! k) \<Longrightarrow> 0 \<le> fresh_count d zoom ks"
  unfolding fresh_count_def by (induction ks) auto

lemma nth_update_zle:
  "zle (off_zoom (d ! j)) zoom \<Longrightarrow> off_zoom c = Zoom zoom \<Longrightarrow>
     zle (off_zoom (d[k := c] ! j)) zoom"
  by (cases "k < length d"; cases "j = k") (simp_all add: list_update_beyond)

lemma merge_neighbors_length:
  "length (fst (merge_neighbors zoom cid ks (d, wx, wy))) = length d"
  by (induction ks arbitrary: d wx wy) simp_all

lemma copy_neighbors_length:
  "length (fst (copy_neighbors zoom ks (d, nx))) = length d"
  by (induction ks arbitrary: d nx) simp_all

lemma merge_neighbors_processed:
  "f32i zoom = zoom \<Longrightarrow> zle (off_zoom (d ! j)) zoom \<Longrightarrow>
     zle (off_zoom (fst (merge_neighbors zoom cid ks (d, wx, wy)) ! j)) zoom"
  by (induction ks arbitrary: d wx wy) (simp_all add: nth_update_zle)

lemma copy_neighbors_processed:
  "f32i zoom = zoom \<Longrightarrow> zle (off_zoom (d ! j)) zoom \<Longrightarrow>
     zle (off_zoom (fst (copy_neighbors zoom ks (d, nx)) ! j)) zoom"
  by (induction ks arbitrary: d nx) (simp_all add: nth_update_zle)

lemma merge_neighbors_psum:
  "f32i zoom = zoom \<Longrightarrow> distinct ks \<Longrightarrow> \<forall>k \<in> set ks. k < length d \<Longrightarrow>
     psum zoom (fst (merge_neighbors zoom cid ks (d, wx, wy))) = psum zoom d + fresh_count d zoom ks"
proof (induction ks arbitrary: d wx wy)
  case Nil
  then show ?case by (simp add: fresh_count_def)
next
  case (Cons k ks)
  show ?case
  proof (cases "zle (off_zoom (d ! k)) zoom")
    case True
    then show ?thesis using Cons by (simp add: fresh_count_def)
  next
    case False
    let ?d = "d[k := (d ! k)\<lparr>off_zoom := Zoom zoom, off_parent := f32i cid\<rparr>]"
    have "psum zoom ?d = psum zoom d + off_num (d ! k)"
      using Cons.prems False by (simp add: psum_mark)
    moreover have "fresh_count ?d zoom ks = fresh_count d zoom ks"
      using Cons.prems by (simp add: fresh_count_update)
    moreover have "fresh_count d zoom (k # ks) = off_num (d ! k) + fresh_count d zoom ks"
      using False by (simp add: fresh_count_def)
    ultimately show ?thesis
      using Cons.IH [of ?d] Cons.prems False by simp
  qed
qed

lemma copy_neighbors_psum:
  "f32i zoom = zoom \<Longrightarrow> distinct ks \<Longrightarrow> \<forall>k \<in> set ks. k < length d \<Longrightarrow>
     psum zoom (fst (copy_neighbors zoom ks (d, nx))) = psum zoom d + fresh_count d zoom ks \<and>
     total (snd (copy_neighbors zoom ks (d, nx))) = total nx + fresh_count d zoom ks"
proof (induction ks arbitrary: d nx)
  case Nil
  then show ?case by (simp add: fresh_count_def)
next
  case (Cons k ks)
  show ?case
  proof (cases "zle (off_zoom (d ! k)) zoom")
    case True
    then show ?thesis using Cons by (simp add: fresh_count_def)
  next
    case False
    let ?d = "d[k := (d ! k)\<lparr>off_zoom := Zoom zoom\<rparr>]"
    have "psum zoom ?d = psum zoom d + off_num (d ! k)"
      using Cons.prems False by (simp add: psum_mark)
    moreover have "fresh_count ?d zoom ks = fresh_count d zoom ks"
      using Cons.prems by (simp add: fresh_count_update)
    moreover have "fresh_count d zoom (k # ks) = off_num (d ! k) + fresh_count d zoom ks"
      using False by (simp add: fresh_count_def)
    moreover have "total (nx @ [(d ! k)\<lparr>off_zoom := Zoom zoom\<rparr>]) = total nx + off_num (d ! k)"
      by (simp add: total_def)
    ultimately show ?thesis
      using Cons.IH [of ?d "nx @ [(d ! k)\<lparr>off_zoom := Zoom zoom\<rparr>]"] Cons.prems False by simp
  qed
qed

text \<open>A property of the records of a level that marking keeps holds of what the loop appends.\<close>

lemma copy_neighbors_appended:
  "\<forall>k \<in> set ks. k < length d \<Longrightarrow> \<forall>c \<in> set d. Q c \<Longrightarrow> \<forall>c \<in> set nx. R c \<Longrightarrow>
   (\<And>c. Q c \<Longrightarrow> Q (c\<lparr>off_zoom := Zoom (f32i zoom)\<rparr>)) \<Longrightarrow>
   (\<And>c. Q c \<Longrightarrow> R (c\<lparr>off_zoom := Zoom (f32i zoom)\<rparr>)) \<Longrightarrow>
     \<forall>c \<in> set (snd (copy_neighbors zoom ks (d, nx))). R c"
proof (induction ks arbitrary: d nx)
  case Nil
  then show ?case by simp
next
  case (Cons k ks)
  show ?case
  proof (cases "zle (off_zoom (d ! k)) zoom")
    case True
    have "\<forall>c \<in> set (snd (copy_neighbors zoom ks (d, nx))). R c"
      using Cons.prems(1) by (intro Cons.IH [OF _ Cons.prems(2,3)] Cons.prems(4,5)) simp_all
    then show ?thesis using True by simp
  next
    case False
    let ?c = "(d ! k)\<lparr>off_zoom := Zoom (f32i zoom)\<rparr>"
    have k: "k < length d" using Cons.prems(1) by simp
    then have q: "Q (d ! k)" using Cons.prems(2) by simp
    have 1: "\<forall>c \<in> set (d[k := ?c]). Q c"
      using Cons.prems(2) Cons.prems(4) [OF q] set_update_subset_insert [of d k ?c] by auto
    have 2: "\<forall>c \<in> set (nx @ [?c]). R c"
      using Cons.prems(3) Cons.prems(5) [OF q] by simp
    have "\<forall>c \<in> set (snd (copy_neighbors zoom ks (d[k := ?c], nx @ [?c]))). R c"
      using Cons.prems(1) by (intro Cons.IH [OF _ 1 2] Cons.prems(4,5)) simp_all
    then show ?thesis using False by simp
  qed
qed

lemma level_ok_static: "map static d = map static d' \<Longrightarrow> level_ok b d = level_ok b d'"
proof -
  have a: "level_ok b t = (\<forall>s \<in> set (map static t). 1 \<le> snd (snd (snd s)) \<and> in_bbox b (fst s, fst (snd s)))"
    for t by (simp add: level_ok_def static_def)
  assume "map static d = map static d'"
  then show "level_ok b d = level_ok b d'" by (simp only: a)
qed

lemma total_static: "map static d = map static d' \<Longrightarrow> total d = total d'"
proof -
  have a: "total t = sum_list (map (\<lambda>s. snd (snd (snd s))) (map static t))" for t
    by (simp add: total_def static_def comp_def)
  assume "map static d = map static d'"
  then show "total d = total d'" by (simp only: a)
qed

text \<open>
  The weighted sums are doubles. As long as the counts stay within \<open>2 ^ 24\<close>, the sum over
  records whose coordinate lies between two single-precision numbers lies between the
  multiples of these numbers by the count: such a multiple is a double, and rounding
  keeps the order.
\<close>

lemma float_sum_lower:
  assumes lo: "float32 lo = lo" and n: "0 \<le> n" and w: "0 \<le> w" and b: "w + n \<le> 2 ^ 24"
    and wx: "lo * of_int w \<le> wx" and x: "lo \<le> x"
  shows "lo * of_int (w + n) \<le> float64 (wx + float64 (x * of_int n))"
proof -
  have "lo * of_int n \<le> x * of_int n" using x n by (intro mult_right_mono) simp_all
  then have "float64 (lo * of_int n) \<le> float64 (x * of_int n)" by (rule float64_mono)
  moreover have "float64 (lo * of_int n) = lo * of_int n"
    using n w b by (intro float64_single_times_int [OF lo]) simp
  ultimately have "lo * of_int (w + n) \<le> wx + float64 (x * of_int n)"
    using wx by (simp add: algebra_simps)
  then have "float64 (lo * of_int (w + n)) \<le> float64 (wx + float64 (x * of_int n))"
    by (rule float64_mono)
  moreover have "float64 (lo * of_int (w + n)) = lo * of_int (w + n)"
    using n w b by (intro float64_single_times_int [OF lo]) simp
  ultimately show ?thesis by simp
qed

lemma float_sum_upper:
  assumes hi: "float32 hi = hi" and n: "0 \<le> n" and w: "0 \<le> w" and b: "w + n \<le> 2 ^ 24"
    and wx: "wx \<le> hi * of_int w" and x: "x \<le> hi"
  shows "float64 (wx + float64 (x * of_int n)) \<le> hi * of_int (w + n)"
proof -
  have "x * of_int n \<le> hi * of_int n" using x n by (intro mult_right_mono) simp_all
  then have "float64 (x * of_int n) \<le> float64 (hi * of_int n)" by (rule float64_mono)
  moreover have "float64 (hi * of_int n) = hi * of_int n"
    using n w b by (intro float64_single_times_int [OF hi]) simp
  ultimately have "wx + float64 (x * of_int n) \<le> hi * of_int (w + n)"
    using wx by (simp add: algebra_simps)
  then have "float64 (wx + float64 (x * of_int n)) \<le> float64 (hi * of_int (w + n))"
    by (rule float64_mono)
  moreover have "float64 (hi * of_int (w + n)) = hi * of_int (w + n)"
    using n w b by (intro float64_single_times_int [OF hi]) simp
  ultimately show ?thesis by simp
qed

lemma float_product_bounds:
  assumes lo: "float32 lo = lo" and hi: "float32 hi = hi" and n: "0 \<le> n" "n \<le> 2 ^ 24"
    and x: "lo \<le> x" "x \<le> hi"
  shows "lo * of_int n \<le> float64 (x * of_int n)" and "float64 (x * of_int n) \<le> hi * of_int n"
proof -
  have "float64 (lo * of_int n) \<le> float64 (x * of_int n)"
    using x(1) n(1) by (intro float64_mono mult_right_mono) simp_all
  moreover have "float64 (lo * of_int n) = lo * of_int n"
    using n by (intro float64_single_times_int [OF lo]) simp
  ultimately show "lo * of_int n \<le> float64 (x * of_int n)" by simp
  have "float64 (x * of_int n) \<le> float64 (hi * of_int n)"
    using x(2) n(1) by (intro float64_mono mult_right_mono) simp_all
  moreover have "float64 (hi * of_int n) = hi * of_int n"
    using n by (intro float64_single_times_int [OF hi]) simp
  ultimately show "float64 (x * of_int n) \<le> hi * of_int n" by simp
qed

lemma merge_neighbors_wx:
  "distinct ks \<Longrightarrow>
   \<forall>k \<in> set ks. k < length d \<and> lo \<le> off_x (d ! k) \<and> off_x (d ! k) \<le> hi \<and> 0 \<le> off_num (d ! k) \<Longrightarrow>
   float32 lo = lo \<Longrightarrow> float32 hi = hi \<Longrightarrow> 0 \<le> w \<Longrightarrow> w + fresh_count d zoom ks \<le> 2 ^ 24 \<Longrightarrow>
   lo * of_int w \<le> wx \<Longrightarrow> wx \<le> hi * of_int w \<Longrightarrow>
   lo * of_int (w + fresh_count d zoom ks) \<le> fst (snd (merge_neighbors zoom cid ks (d, wx, wy))) \<and>
   fst (snd (merge_neighbors zoom cid ks (d, wx, wy))) \<le> hi * of_int (w + fresh_count d zoom ks)"
proof (induction ks arbitrary: d wx wy w)
  case Nil
  then show ?case by (simp add: fresh_count_def)
next
  case (Cons k ks)
  show ?case
  proof (cases "zle (off_zoom (d ! k)) zoom")
    case True
    have "fresh_count d zoom (k # ks) = fresh_count d zoom ks"
      using True by (simp add: fresh_count_def)
    then show ?thesis using True Cons.IH [of d w wx wy] Cons.prems by simp
  next
    case False
    let ?d = "d[k := (d ! k)\<lparr>off_zoom := Zoom (f32i zoom), off_parent := f32i cid\<rparr>]"
    let ?n = "off_num (d ! k)"
    let ?wx = "float64 (wx + float64 (off_x (d ! k) * of_int ?n))"
    let ?wy = "float64 (wy + float64 (off_y (d ! k) * of_int ?n))"
    have k: "k < length d" "lo \<le> off_x (d ! k)" "off_x (d ! k) \<le> hi" "0 \<le> ?n" "k \<notin> set ks"
      using Cons.prems(1,2) by simp_all
    have f: "fresh_count d zoom (k # ks) = ?n + fresh_count d zoom ks"
      using False by (simp add: fresh_count_def)
    have g: "fresh_count ?d zoom ks = fresh_count d zoom ks"
      using k(5) by (simp add: fresh_count_update)
    have r: "0 \<le> fresh_count d zoom ks"
      using Cons.prems(2) by (intro fresh_count_nonneg) simp
    have b: "w + ?n \<le> 2 ^ 24" using Cons.prems(6) f r by simp
    have 1: "lo * of_int (w + ?n) \<le> ?wx"
      using float_sum_lower [OF Cons.prems(3) k(4) Cons.prems(5) b Cons.prems(7) k(2)] .
    have 2: "?wx \<le> hi * of_int (w + ?n)"
      using float_sum_upper [OF Cons.prems(4) k(4) Cons.prems(5) b Cons.prems(8) k(3)] .
    have 3: "\<forall>j \<in> set ks. j < length ?d \<and> lo \<le> off_x (?d ! j) \<and> off_x (?d ! j) \<le> hi \<and>
        0 \<le> off_num (?d ! j)"
      using Cons.prems(2) k(5) by (auto simp add: nth_list_update)
    have 4: "0 \<le> w + ?n" using Cons.prems(5) k(4) by simp
    have 5: "w + ?n + fresh_count ?d zoom ks \<le> 2 ^ 24" using Cons.prems(6) f g by simp
    have "distinct ks" using Cons.prems(1) by simp
    from Cons.IH [OF this 3 Cons.prems(3,4) 4 5 1 2]
    show ?thesis using False by (simp add: f g add.assoc)
  qed
qed

lemma merge_neighbors_wy:
  "distinct ks \<Longrightarrow>
   \<forall>k \<in> set ks. k < length d \<and> lo \<le> off_y (d ! k) \<and> off_y (d ! k) \<le> hi \<and> 0 \<le> off_num (d ! k) \<Longrightarrow>
   float32 lo = lo \<Longrightarrow> float32 hi = hi \<Longrightarrow> 0 \<le> w \<Longrightarrow> w + fresh_count d zoom ks \<le> 2 ^ 24 \<Longrightarrow>
   lo * of_int w \<le> wy \<Longrightarrow> wy \<le> hi * of_int w \<Longrightarrow>
   lo * of_int (w + fresh_count d zoom ks) \<le> snd (snd (merge_neighbors zoom cid ks (d, wx, wy))) \<and>
   snd (snd (merge_neighbors zoom cid ks (d, wx, wy))) \<le> hi * of_int (w + fresh_count d zoom ks)"
proof (induction ks arbitrary: d wx wy w)
  case Nil
  then show ?case by (simp add: fresh_count_def)
next
  case (Cons k ks)
  show ?case
  proof (cases "zle (off_zoom (d ! k)) zoom")
    case True
    have "fresh_count d zoom (k # ks) = fresh_count d zoom ks"
      using True by (simp add: fresh_count_def)
    then show ?thesis using True Cons.IH [of d w wy wx] Cons.prems by simp
  next
    case False
    let ?d = "d[k := (d ! k)\<lparr>off_zoom := Zoom (f32i zoom), off_parent := f32i cid\<rparr>]"
    let ?n = "off_num (d ! k)"
    let ?wx = "float64 (wx + float64 (off_x (d ! k) * of_int ?n))"
    let ?wy = "float64 (wy + float64 (off_y (d ! k) * of_int ?n))"
    have k: "k < length d" "lo \<le> off_y (d ! k)" "off_y (d ! k) \<le> hi" "0 \<le> ?n" "k \<notin> set ks"
      using Cons.prems(1,2) by simp_all
    have f: "fresh_count d zoom (k # ks) = ?n + fresh_count d zoom ks"
      using False by (simp add: fresh_count_def)
    have g: "fresh_count ?d zoom ks = fresh_count d zoom ks"
      using k(5) by (simp add: fresh_count_update)
    have r: "0 \<le> fresh_count d zoom ks"
      using Cons.prems(2) by (intro fresh_count_nonneg) simp
    have b: "w + ?n \<le> 2 ^ 24" using Cons.prems(6) f r by simp
    have 1: "lo * of_int (w + ?n) \<le> ?wy"
      using float_sum_lower [OF Cons.prems(3) k(4) Cons.prems(5) b Cons.prems(7) k(2)] .
    have 2: "?wy \<le> hi * of_int (w + ?n)"
      using float_sum_upper [OF Cons.prems(4) k(4) Cons.prems(5) b Cons.prems(8) k(3)] .
    have 3: "\<forall>j \<in> set ks. j < length ?d \<and> lo \<le> off_y (?d ! j) \<and> off_y (?d ! j) \<le> hi \<and>
        0 \<le> off_num (?d ! j)"
      using Cons.prems(2) k(5) by (auto simp add: nth_list_update)
    have 4: "0 \<le> w + ?n" using Cons.prems(5) k(4) by simp
    have 5: "w + ?n + fresh_count ?d zoom ks \<le> 2 ^ 24" using Cons.prems(6) f g by simp
    have "distinct ks" using Cons.prems(1) by simp
    from Cons.IH [OF this 3 Cons.prems(3,4) 4 5 1 2]
    show ?thesis using False by (simp add: f g add.assoc)
  qed
qed

lemma psum_all: "\<forall>k < length d. zle (off_zoom (d ! k)) zoom \<Longrightarrow> psum zoom d = total d"
proof -
  assume "\<forall>k < length d. zle (off_zoom (d ! k)) zoom"
  then have "\<forall>c \<in> set d. zle (off_zoom c) zoom" by (metis in_set_conv_nth)
  then show ?thesis unfolding psum_def total_def by (intro arg_cong [of _ _ sum_list]) simp
qed

lemma psum_none: "\<forall>c \<in> set d. zgt (off_zoom c) zoom \<Longrightarrow> psum zoom d = 0"
  unfolding psum_def by (induction d) (simp_all add: zgt_not_zle)

lemma within_okD:
  "within_ok e \<Longrightarrow> distinct (kd_within e cs q r)"
  "within_ok e \<Longrightarrow> k \<in> set (kd_within e cs q r) \<Longrightarrow> k < length cs"
  unfolding within_ok_def by blast+

lemma level_okD:
  "level_ok b d \<Longrightarrow> k < length d \<Longrightarrow> 1 \<le> off_num (d ! k)"
  "level_ok b d \<Longrightarrow> k < length d \<Longrightarrow> in_bbox b (off_x (d ! k), off_y (d ! k))"
  unfolding level_ok_def by simp_all

lemma level_ok_snoc:
  "level_ok b (nx @ [c]) = (level_ok b nx \<and> 1 \<le> off_num c \<and> in_bbox b (off_x c, off_y c))"
  unfolding level_ok_def by auto

lemma centroid_in_range:
  fixes lo hi w :: rat
  assumes "lo * of_int m \<le> w" "w \<le> hi * of_int m" "0 < m"
  shows "lo \<le> w / of_int m \<and> w / of_int m \<le> hi"
proof -
  have "0 < (of_int m :: rat)" using assms(3) by simp
  then show ?thesis using assms(1,2) by (simp add: pos_le_divide_eq pos_divide_le_eq)
qed

text \<open>A record that the pass has visited and the records that it finds fresh are
  different records of the level.\<close>

lemma fresh_count_le:
  assumes dk: "distinct ks" and rk: "\<forall>k \<in> set ks. k < length d"
    and pos: "\<forall>c \<in> set d. 0 \<le> off_num c" and i: "i < length d"
    and zi: "zle (off_zoom (d ! i)) zoom"
  shows "off_num (d ! i) + fresh_count d zoom ks \<le> total d"
proof -
  define g where "g = (\<lambda>k. if zle (off_zoom (d ! k)) zoom then 0 else off_num (d ! k))"
  have g0: "0 \<le> g k" if "k < length d" for k using that pos by (simp add: g_def)
  have "fresh_count d zoom ks = sum_list (map g ks)" by (simp add: fresh_count_def g_def)
  also have "\<dots> = sum g (set ks)" using dk by (rule sum_list_distinct_conv_sum_set)
  also have "\<dots> \<le> sum g {0..<length d}"
    using rk g0 by (intro sum_mono2) auto
  also have "\<dots> = sum g ({0..<length d} - {i})"
    using i zi by (subst sum.remove [of _ i]) (simp_all add: g_def)
  also have "\<dots> \<le> sum (\<lambda>k. off_num (d ! k)) ({0..<length d} - {i})"
    using pos by (intro sum_mono) (auto simp add: g_def)
  finally have "off_num (d ! i) + fresh_count d zoom ks \<le>
      off_num (d ! i) + sum (\<lambda>k. off_num (d ! k)) ({0..<length d} - {i})" by simp
  also have "\<dots> = sum (\<lambda>k. off_num (d ! k)) {0..<length d}"
    using i by (subst sum.remove [of _ i]) simp_all
  also have "\<dots> = total d" by (simp add: total_def sum_list_sum_nth)
  finally show ?thesis .
qed

lemma form_cluster_inv:
  assumes z: "f32i zoom = zoom" and bb: "box32 b" and nb: "np \<le> 2 ^ 24"
    and dk: "distinct ks" and rk: "\<forall>k \<in> set ks. k < length d1"
    and ok1: "level_ok b d1" and i: "i < length d1"
    and np: "np = off_num (d1 ! i) + fresh_count d1 zoom ks" and gt: "off_num (d1 ! i) < np"
    and r: "form_cluster zoom cid i ks np (d1, nx) = (d', nx')"
  shows "psum zoom d' = psum zoom d1 + fresh_count d1 zoom ks"
    and "\<exists>c. nx' = nx @ [c] \<and> off_num c = np \<and> off_zoom c = Infinity \<and> off_id c = cid \<and>
           off_parent c = - 1 \<and> in_bbox b (off_x c, off_y c)"
    and "\<And>j. zle (off_zoom (d1 ! j)) zoom \<Longrightarrow> zle (off_zoom (d' ! j)) zoom"
proof -
  obtain minX minY maxX maxY where b: "b = (minX, minY, maxX, maxY)" by (cases b) auto
  let ?wx0 = "float64 (off_x (d1 ! i) * of_int (off_num (d1 ! i)))"
  let ?wy0 = "float64 (off_y (d1 ! i) * of_int (off_num (d1 ! i)))"
  obtain d2 wx wy where m: "merge_neighbors zoom cid ks (d1, ?wx0, ?wy0) = (d2, wx, wy)"
    by (metis prod_cases3)
  have d': "d' = d2[i := (d2 ! i)\<lparr>off_parent := f32i cid\<rparr>]"
    and nx': "nx' = nx @ [\<lparr>off_x = float64 (wx / of_int np), off_y = float64 (wy / of_int np),
         off_zoom = Infinity, off_id = cid, off_parent = - 1, off_num = np\<rparr>]"
    using r m by (simp_all add: form_cluster_def)
  have f32: "float32 minX = minX" "float32 minY = minY" "float32 maxX = maxX" "float32 maxY = maxY"
    using bb by (simp_all add: box32_def b)
  have p2: "psum zoom d2 = psum zoom d1 + fresh_count d1 zoom ks"
    using merge_neighbors_psum [OF z dk rk, of cid ?wx0 ?wy0] m by simp
  have p3: "psum zoom d' = psum zoom d2" unfolding d' by (simp add: psum_same)
  show "psum zoom d' = psum zoom d1 + fresh_count d1 zoom ks" using p2 p3 by simp
  have ni: "1 \<le> off_num (d1 ! i)" using level_okD(1) [OF ok1 i] .
  have pos: "0 < np" using gt ni by simp
  have bx: "in_bbox b (off_x (d1 ! i), off_y (d1 ! i))" using level_okD(2) [OF ok1 i] .
  have n0: "0 \<le> (of_int (off_num (d1 ! i)) :: rat)" using ni by simp
  have hx: "\<forall>k \<in> set ks. k < length d1 \<and> minX \<le> off_x (d1 ! k) \<and> off_x (d1 ! k) \<le> maxX \<and>
      0 \<le> off_num (d1 ! k)"
  proof
    fix k assume "k \<in> set ks"
    then have k: "k < length d1" using rk by simp
    show "k < length d1 \<and> minX \<le> off_x (d1 ! k) \<and> off_x (d1 ! k) \<le> maxX \<and> 0 \<le> off_num (d1 ! k)"
      using k level_okD [OF ok1 k] by (simp add: b)
  qed
  have hy: "\<forall>k \<in> set ks. k < length d1 \<and> minY \<le> off_y (d1 ! k) \<and> off_y (d1 ! k) \<le> maxY \<and>
      0 \<le> off_num (d1 ! k)"
  proof
    fix k assume "k \<in> set ks"
    then have k: "k < length d1" using rk by simp
    show "k < length d1 \<and> minY \<le> off_y (d1 ! k) \<and> off_y (d1 ! k) \<le> maxY \<and> 0 \<le> off_num (d1 ! k)"
      using k level_okD [OF ok1 k] by (simp add: b)
  qed
  have n1: "0 \<le> off_num (d1 ! i)" "off_num (d1 ! i) \<le> 2 ^ 24"
    "off_num (d1 ! i) + fresh_count d1 zoom ks \<le> 2 ^ 24"
    using ni gt nb np by simp_all
  have bxi: "minX \<le> off_x (d1 ! i)" "off_x (d1 ! i) \<le> maxX"
    "minY \<le> off_y (d1 ! i)" "off_y (d1 ! i) \<le> maxY"
    using bx by (simp_all add: b)
  note x0 = float_product_bounds [OF f32(1,3) n1(1,2) bxi(1,2)]
  note y0 = float_product_bounds [OF f32(2,4) n1(1,2) bxi(3,4)]
  have "minX * of_int np \<le> wx \<and> wx \<le> maxX * of_int np"
    using merge_neighbors_wx [OF dk hx f32(1,3) n1(1,3) x0, of cid ?wy0] m by (simp add: np)
  then have "minX \<le> wx / of_int np \<and> wx / of_int np \<le> maxX"
    using centroid_in_range pos by blast
  then have "float64 minX \<le> float64 (wx / of_int np) \<and> float64 (wx / of_int np) \<le> float64 maxX"
    using float64_mono by blast
  then have cx: "minX \<le> float64 (wx / of_int np) \<and> float64 (wx / of_int np) \<le> maxX"
    using float64_single [OF f32(1)] float64_single [OF f32(3)] by simp
  have "minY * of_int np \<le> wy \<and> wy \<le> maxY * of_int np"
    using merge_neighbors_wy [OF dk hy f32(2,4) n1(1,3) y0, of cid ?wx0] m by (simp add: np)
  then have "minY \<le> wy / of_int np \<and> wy / of_int np \<le> maxY"
    using centroid_in_range pos by blast
  then have "float64 minY \<le> float64 (wy / of_int np) \<and> float64 (wy / of_int np) \<le> float64 maxY"
    using float64_mono by blast
  then have cy: "minY \<le> float64 (wy / of_int np) \<and> float64 (wy / of_int np) \<le> maxY"
    using float64_single [OF f32(2)] float64_single [OF f32(4)] by simp
  show "\<exists>c. nx' = nx @ [c] \<and> off_num c = np \<and> off_zoom c = Infinity \<and> off_id c = cid \<and>
           off_parent c = - 1 \<and> in_bbox b (off_x c, off_y c)"
    unfolding nx' using cx cy by (simp add: b)
  fix j assume "zle (off_zoom (d1 ! j)) zoom"
  then have "zle (off_zoom (d2 ! j)) zoom"
    using merge_neighbors_processed [OF z, of d1 j cid ks ?wx0 ?wy0] m by simp
  then show "zle (off_zoom (d' ! j)) zoom"
    unfolding d' by (cases "i < length d2"; cases "j = i") (simp_all add: list_update_beyond)
qed

lemma leave_unclustered_inv:
  assumes z: "f32i zoom = zoom" and dk: "distinct ks" and rk: "\<forall>k \<in> set ks. k < length d1"
    and ok1: "level_ok b d1" and i: "i < length d1"
    and np: "np = off_num (d1 ! i) + fresh_count d1 zoom ks"
    and pi: "off_zoom (d1 ! i) = Zoom zoom"
    and okn: "level_ok b nx" and mk: "\<forall>c \<in> set nx. zgt (off_zoom c) (zoom - 1)"
    and r: "leave_unclustered zoom i ks np (d1, nx) = (d', nx')"
  shows "psum zoom d' - psum zoom d1 = total nx' - total nx - off_num (d1 ! i)"
    and "level_ok b nx'" and "\<forall>c \<in> set nx'. zgt (off_zoom c) (zoom - 1)"
    and "\<And>j. zle (off_zoom (d1 ! j)) zoom \<Longrightarrow> zle (off_zoom (d' ! j)) zoom"
proof -
  define nx1 where "nx1 = nx @ [d1 ! i]"
  have t1: "total nx1 = total nx + off_num (d1 ! i)" by (simp add: nx1_def total_def)
  have okn1: "level_ok b nx1"
    unfolding nx1_def level_ok_snoc using okn level_okD [OF ok1 i] by simp
  have mk1: "\<forall>c \<in> set nx1. zgt (off_zoom c) (zoom - 1)"
    unfolding nx1_def using mk by (simp add: pi)
  have r': "(if np > 1 then copy_neighbors zoom ks (d1, nx1) else (d1, nx1)) = (d', nx')"
    using r by (auto simp add: leave_unclustered_def nx1_def split: if_splits)
  have "(psum zoom d' - psum zoom d1 = total nx' - total nx - off_num (d1 ! i) \<and>
      level_ok b nx' \<and> (\<forall>c \<in> set nx'. zgt (off_zoom c) (zoom - 1))) \<and>
      (\<forall>j. zle (off_zoom (d1 ! j)) zoom \<longrightarrow> zle (off_zoom (d' ! j)) zoom)"
  proof (cases "np > 1")
    case True
    have c: "copy_neighbors zoom ks (d1, nx1) = (d', nx')" using r' True by simp
    have sum: "psum zoom d' - psum zoom d1 = total nx' - total nx - off_num (d1 ! i)"
      using copy_neighbors_psum [OF z dk rk, of nx1] c t1 by simp
    have "\<forall>c \<in> set (snd (copy_neighbors zoom ks (d1, nx1))).
        (1 \<le> off_num c \<and> in_bbox b (off_x c, off_y c)) \<and> zgt (off_zoom c) (zoom - 1)"
    proof (rule copy_neighbors_appended [OF rk,
          where Q = "\<lambda>c. 1 \<le> off_num c \<and> in_bbox b (off_x c, off_y c)"])
      show "\<forall>c \<in> set d1. 1 \<le> off_num c \<and> in_bbox b (off_x c, off_y c)"
        using ok1 by (simp add: level_ok_def)
      show "\<forall>c \<in> set nx1. (1 \<le> off_num c \<and> in_bbox b (off_x c, off_y c)) \<and>
          zgt (off_zoom c) (zoom - 1)"
        using okn1 mk1 by (simp add: level_ok_def)
    qed (simp_all add: z)
    then have okn': "level_ok b nx'" and mk': "\<forall>c \<in> set nx'. zgt (off_zoom c) (zoom - 1)"
      using c by (simp_all add: level_ok_def)
    have "zle (off_zoom (d' ! j)) zoom" if "zle (off_zoom (d1 ! j)) zoom" for j
      using copy_neighbors_processed [OF z that, of ks nx1] c by simp
    then show ?thesis using sum okn' mk' by blast
  next
    case False
    then have "d' = d1" "nx' = nx1" using r' by simp_all
    then show ?thesis using t1 okn1 mk1 by simp
  qed
  then show "psum zoom d' - psum zoom d1 = total nx' - total nx - off_num (d1 ! i)"
    and "level_ok b nx'" and "\<forall>c \<in> set nx'. zgt (off_zoom c) (zoom - 1)"
    and "\<And>j. zle (off_zoom (d1 ! j)) zoom \<Longrightarrow> zle (off_zoom (d' ! j)) zoom"
    by blast+
qed

lemma cluster_step_inv:
  assumes z: "f32i zoom = zoom" and bb: "box32 b" and tb: "total d \<le> 2 ^ 24"
    and w: "within_ok e" and i: "i < length d"
    and ok: "level_ok b d" and ps: "psum zoom d = total nx" and okn: "level_ok b nx"
    and mk: "\<forall>c \<in> set nx. zgt (off_zoom c) (zoom - 1)"
    and st: "cluster_step e options n zoom (d, nx) i = (d', nx')"
  shows "psum zoom d' = total nx' \<and> level_ok b nx' \<and>
    (\<forall>c \<in> set nx'. zgt (off_zoom c) (zoom - 1)) \<and> zle (off_zoom (d' ! i)) zoom \<and>
    (\<forall>j. zle (off_zoom (d ! j)) zoom \<longrightarrow> zle (off_zoom (d' ! j)) zoom)"
proof (cases "zle (off_zoom (d ! i)) zoom")
  case True
  then have "d' = d" "nx' = nx" using st by (simp_all add: cluster_step_def)
  then show ?thesis using True ps okn mk by simp
next
  case False
  define d1 where "d1 = d[i := (d ! i)\<lparr>off_zoom := Zoom zoom\<rparr>]"
  define ks where "ks = kd_within e (coords d1) (Some (off_x (d1 ! i), off_y (d1 ! i)))
    (cluster_radius options zoom)"
  define np where "np = count_neighbors d1 zoom (off_num (d1 ! i)) ks"
  have s1: "map static d1 = map static d" by (simp add: d1_def static_update_zoom)
  have l1: "length d1 = length d" by (simp add: d1_def)
  have i1: "i < length d1" using i l1 by simp
  have ok1: "level_ok b d1" using ok level_ok_static [OF s1] by simp
  have di: "d1 ! i = (d ! i)\<lparr>off_zoom := Zoom zoom\<rparr>" using i by (simp add: d1_def)
  have p1: "psum zoom d1 = psum zoom d + off_num (d1 ! i)"
    unfolding d1_def using i False by (simp add: psum_mark)
  have dk: "distinct ks" unfolding ks_def using within_okD(1) [OF w] .
  have rk: "\<forall>k \<in> set ks. k < length d1"
  proof
    fix k assume "k \<in> set ks"
    then have "k < length (coords d1)" unfolding ks_def by (rule within_okD(2) [OF w])
    then show "k < length d1" by (simp add: coords_def)
  qed
  have np: "np = off_num (d1 ! i) + fresh_count d1 zoom ks"
    by (simp add: np_def count_neighbors_fresh)
  have mono1: "zle (off_zoom (d1 ! j)) zoom" if "zle (off_zoom (d ! j)) zoom" for j
    unfolding d1_def using that by (simp add: nth_update_zle)
  have pi1: "zle (off_zoom (d1 ! i)) zoom" by (simp add: di)
  have r: "(if np > off_num (d1 ! i) \<and> np \<ge> minPoints options
        then form_cluster zoom (encode_id i zoom n) i ks np (d1, nx)
        else leave_unclustered zoom i ks np (d1, nx)) = (d', nx')"
    using st False unfolding cluster_step_def Let_def z d1_def ks_def np_def by simp
  show ?thesis
  proof (cases "np > off_num (d1 ! i) \<and> np \<ge> minPoints options")
    case True
    then have f: "form_cluster zoom (encode_id i zoom n) i ks np (d1, nx) = (d', nx')"
      and gt: "off_num (d1 ! i) < np"
      using r by simp_all
    have "\<forall>c \<in> set d1. 0 \<le> off_num c" using ok1 by (auto simp add: level_ok_def)
    then have "off_num (d1 ! i) + fresh_count d1 zoom ks \<le> total d1"
      using dk rk i1 pi1 by (intro fresh_count_le) simp_all
    then have nb: "np \<le> 2 ^ 24" using np tb total_static [OF s1] by simp
    note f = form_cluster_inv [OF z bb nb dk rk ok1 i1 np gt f]
    obtain c where c: "nx' = nx @ [c]" "off_num c = np" "off_zoom c = Infinity"
      "in_bbox b (off_x c, off_y c)"
      using f(2) by blast
    have "1 \<le> np" using gt level_okD(1) [OF ok1 i1] by simp
    then have "level_ok b nx'" "\<forall>c \<in> set nx'. zgt (off_zoom c) (zoom - 1)"
      "total nx' = total nx + np"
      using c okn mk by (simp_all add: level_ok_snoc total_def)
    then show ?thesis using f(1) f(3) p1 ps np mono1 pi1 by simp
  next
    case False
    then have u: "leave_unclustered zoom i ks np (d1, nx) = (d', nx')"
      using r by (auto split: if_splits)
    note u = leave_unclustered_inv [OF z dk rk ok1 i1 np _ okn mk u]
    have zi: "off_zoom (d1 ! i) = Zoom zoom" by (simp add: di)
    show ?thesis using u(1) [OF zi] u(2) [OF zi] u(3) [OF zi] u(4) [OF zi] p1 ps mono1 pi1 by simp
  qed
qed

lemma cluster_step_length: "length (fst (cluster_step e options n zoom (d, nx) i)) = length d"
  using arg_cong [OF cluster_step_static [of e options n zoom d nx i], of length] by simp

lemma cluster_steps_inv:
  assumes z: "f32i zoom = zoom" and bb: "box32 b" and w: "within_ok e"
  shows "total d \<le> 2 ^ 24 \<Longrightarrow>
    \<forall>i \<in> set is. i < length d \<Longrightarrow> level_ok b d \<Longrightarrow> psum zoom d = total nx \<Longrightarrow>
    level_ok b nx \<Longrightarrow> \<forall>c \<in> set nx. zgt (off_zoom c) (zoom - 1) \<Longrightarrow>
    foldl (cluster_step e options n zoom) (d, nx) is = (d', nx') \<Longrightarrow>
    psum zoom d' = total nx' \<and> level_ok b nx' \<and> (\<forall>c \<in> set nx'. zgt (off_zoom c) (zoom - 1)) \<and>
    (\<forall>i \<in> set is. zle (off_zoom (d' ! i)) zoom) \<and>
    (\<forall>j. zle (off_zoom (d ! j)) zoom \<longrightarrow> zle (off_zoom (d' ! j)) zoom)"
proof (induction "is" arbitrary: d nx)
  case Nil
  then show ?case by simp
next
  case (Cons i "is")
  obtain d1 nx1 where s: "cluster_step e options n zoom (d, nx) i = (d1, nx1)" by fastforce
  have i: "i < length d" using Cons.prems(2) by simp
  have a: "psum zoom d1 = total nx1" "level_ok b nx1"
    "\<forall>c \<in> set nx1. zgt (off_zoom c) (zoom - 1)" "zle (off_zoom (d1 ! i)) zoom"
    "\<forall>j. zle (off_zoom (d ! j)) zoom \<longrightarrow> zle (off_zoom (d1 ! j)) zoom"
    using cluster_step_inv [OF z bb Cons.prems(1) w i Cons.prems(3,4,5,6) s] by blast+
  have s1: "map static d1 = map static d"
    using cluster_step_static [of e options n zoom d nx i] s by simp
  have l: "length d1 = length d" using s1 by (rule map_eq_imp_length_eq)
  have ok1: "level_ok b d1" using level_ok_static [OF s1] Cons.prems(3) by simp
  have t1: "total d1 \<le> 2 ^ 24" using total_static [OF s1] Cons.prems(1) by simp
  have f: "foldl (cluster_step e options n zoom) (d1, nx1) is = (d', nx')"
    using Cons.prems(7) s by simp
  have r: "\<forall>i \<in> set is. i < length d1" using Cons.prems(2) l by simp
  have c: "psum zoom d' = total nx'" "level_ok b nx'"
    "\<forall>c \<in> set nx'. zgt (off_zoom c) (zoom - 1)"
    "\<forall>i \<in> set is. zle (off_zoom (d' ! i)) zoom"
    "\<forall>j. zle (off_zoom (d1 ! j)) zoom \<longrightarrow> zle (off_zoom (d' ! j)) zoom"
    using Cons.IH [OF t1 r ok1 a(1) a(2) a(3) f] by blast+
  show ?case using c a(4) a(5) by simp
qed

lemma cluster_pass:
  assumes z: "f32i zoom = zoom" and bb: "box32 b" and tb: "total d \<le> 2 ^ 24"
    and w: "within_ok e" and ok: "level_ok b d" and un: "\<forall>c \<in> set d. zgt (off_zoom c) zoom"
    and c: "cluster e options n d zoom = (d', nx)"
  shows "total nx = total d" and "level_ok b nx" and "\<forall>c \<in> set nx. zgt (off_zoom c) (zoom - 1)"
    and "map static d' = map static d"
proof -
  have f: "foldl (cluster_step e options n zoom) (d, []) [0..<length d] = (d', nx)"
    using c by (simp add: cluster_def)
  have s: "map static d' = map static d" using cluster_static [of e options n d zoom] c by simp
  then show "map static d' = map static d" .
  have l: "length d' = length d" using s by (rule map_eq_imp_length_eq)
  have h: "\<forall>i \<in> set [0..<length d]. i < length d" "psum zoom d = total []"
    "level_ok b []" "\<forall>c \<in> set ([] :: tree). zgt (off_zoom c) (zoom - 1)"
    using un by (simp_all add: psum_none total_def level_ok_def)
  have "psum zoom d' = total nx \<and> level_ok b nx \<and> (\<forall>c \<in> set nx. zgt (off_zoom c) (zoom - 1)) \<and>
    (\<forall>i \<in> set [0..<length d]. zle (off_zoom (d' ! i)) zoom) \<and>
    (\<forall>j. zle (off_zoom (d ! j)) zoom \<longrightarrow> zle (off_zoom (d' ! j)) zoom)"
    by (rule cluster_steps_inv [OF z bb w tb h(1) ok h(2) h(3) h(4) f])
  then have a: "psum zoom d' = total nx" "level_ok b nx" "\<forall>c \<in> set nx. zgt (off_zoom c) (zoom - 1)"
    "\<forall>k < length d'. zle (off_zoom (d' ! k)) zoom"
    using l by simp_all
  show "level_ok b nx" "\<forall>c \<in> set nx. zgt (off_zoom c) (zoom - 1)" using a by simp_all
  show "total nx = total d" using a(1) psum_all [OF a(4)] total_static [OF s] by simp
qed

text \<open>
  Storing the records of the next level rounds their coordinates, which stay within a box
  of single-precision bounds, and changes neither their counts, which are at most
  \<open>2 ^ 24\<close>, nor what their zoom marks say.
\<close>

lemma num_le_total:
  assumes "\<forall>c \<in> set d. 0 \<le> off_num c" "c \<in> set d"
  shows "off_num c \<le> total d"
proof -
  have "off_num c \<in> set (map off_num d)" using assms(2) by simp
  moreover have "\<forall>x \<in> set (map off_num d). 0 \<le> x" using assms(1) by simp
  ultimately show ?thesis unfolding total_def by (metis member_le_sum_list)
qed

lemma store32_level:
  assumes z: "f32i zoom = zoom" and bb: "box32 b"
    and n: "1 \<le> off_num c" "off_num c \<le> 2 ^ 24" and x: "in_bbox b (off_x c, off_y c)"
    and m: "zgt (off_zoom c) (zoom - 1)"
  shows "off_num (store32 c) = off_num c" and "in_bbox b (off_x (store32 c), off_y (store32 c))"
    and "zgt (off_zoom (store32 c)) (zoom - 1)"
proof -
  show "off_num (store32 c) = off_num c" using n by (simp add: store32_def f32i_exact)
  obtain minX minY maxX maxY where b: "b = (minX, minY, maxX, maxY)" by (cases b) auto
  have f32: "float32 minX = minX" "float32 minY = minY" "float32 maxX = maxX" "float32 maxY = maxY"
    using bb by (simp_all add: box32_def b)
  have "float32 minX \<le> float32 (off_x c)" "float32 (off_x c) \<le> float32 maxX"
    "float32 minY \<le> float32 (off_y c)" "float32 (off_y c) \<le> float32 maxY"
    using x by (simp_all add: b float32_mono)
  then show "in_bbox b (off_x (store32 c), off_y (store32 c))"
    unfolding f32 by (simp add: b store32_def)
  show "zgt (off_zoom (store32 c)) (zoom - 1)"
  proof (cases "off_zoom c")
    case Infinity
    then show ?thesis by (simp add: store32_def)
  next
    case (Zoom v)
    then have "zoom \<le> v" using m by simp
    then have "zoom \<le> f32i v" using f32i_mono [of zoom v] z by simp
    then show ?thesis using Zoom by (simp add: store32_def)
  qed
qed

lemma createTree_level:
  assumes z: "f32i zoom = zoom" and bb: "box32 b"
    and ok: "level_ok b nx" and tb: "total nx \<le> 2 ^ 24"
    and m: "\<forall>c \<in> set nx. zgt (off_zoom c) (zoom - 1)"
  shows "level_ok b (createTree nx)" and "total (createTree nx) = total nx"
    and "\<forall>c \<in> set (createTree nx). zgt (off_zoom c) (zoom - 1)"
proof -
  have p: "\<forall>c \<in> set nx. 0 \<le> off_num c" using ok by (auto simp add: level_ok_def)
  have s: "off_num (store32 c) = off_num c"
    "in_bbox b (off_x (store32 c), off_y (store32 c))" "zgt (off_zoom (store32 c)) (zoom - 1)"
    if c: "c \<in> set nx" for c
  proof -
    have n: "1 \<le> off_num c" and x: "in_bbox b (off_x c, off_y c)"
      using ok c by (simp_all add: level_ok_def)
    have "off_num c \<le> 2 ^ 24" using num_le_total [OF p c] tb by simp
    from store32_level [OF z bb n this x m [rule_format, OF c]]
    show "off_num (store32 c) = off_num c"
      "in_bbox b (off_x (store32 c), off_y (store32 c))" "zgt (off_zoom (store32 c)) (zoom - 1)"
      by simp_all
  qed
  show "level_ok b (createTree nx)"
    using ok s(1,2) by (auto simp add: level_ok_def createTree_def)
  show "total (createTree nx) = total nx"
    unfolding total_def createTree_def map_map comp_def using s(1)
    by (intro arg_cong [of _ _ sum_list] map_cong refl)
  show "\<forall>c \<in> set (createTree nx). zgt (off_zoom c) (zoom - 1)"
    using s(3) by (auto simp add: createTree_def)
qed

lemma load_loop_levels:
  "within_ok e \<Longrightarrow> box32 b \<Longrightarrow> - (2 ^ 24) \<le> minZoom (opts st) \<Longrightarrow> z \<le> 2 ^ 24 \<Longrightarrow> m \<le> 2 ^ 24 \<Longrightarrow>
    trees st (z + 1) = Some tree \<Longrightarrow> level_ok b tree \<Longrightarrow> total tree = m \<Longrightarrow>
    \<forall>c \<in> set tree. zgt (off_zoom c) z \<Longrightarrow> minZoom (opts st) \<le> k \<Longrightarrow> k \<le> z + 1 \<Longrightarrow>
    \<exists>t. trees (load_loop e st tree z) k = Some t \<and> level_ok b t \<and> total t = m"
proof (induction e st tree z rule: load_loop.induct)
  case (1 e st tree z)
  show ?case
  proof (cases "minZoom (opts st) \<le> z")
    case True
    obtain d nx where c: "cluster e (opts st) (int (length (points st))) tree z = (d, nx)"
      by fastforce
    note w = "1.prems"(1) and bb = "1.prems"(2)
    have z: "f32i z = z" using True "1.prems"(3,4) by (intro f32i_exact) simp
    have tb: "total tree \<le> 2 ^ 24" using "1.prems"(5,8) by simp
    note p = cluster_pass [OF z bb tb w "1.prems"(7,9) c]
    have tn: "total nx \<le> 2 ^ 24" using p(1) tb by simp
    note q = createTree_level [OF z bb p(2) tn p(3)]
    let ?st = "st\<lparr>trees := (trees st)(z + 1 := Some d, z := Some (createTree nx))\<rparr>"
    have u: "load_loop e st tree z = load_loop e ?st (createTree nx) (z - 1)"
      using True c by (simp add: load_loop.simps [of e st tree z])
    show ?thesis
    proof (cases "k = z + 1")
      case True
      have "trees (load_loop e ?st (createTree nx) (z - 1)) k = Some d"
        using True by (simp add: load_loop_trees_outside)
      moreover have "level_ok b d" using p(4) "1.prems"(7) level_ok_static by blast
      moreover have "total d = m" using p(4) "1.prems"(8) total_static by metis
      ultimately show ?thesis using u by simp
    next
      case False
      have h: "- (2 ^ 24) \<le> minZoom (opts ?st)" "z - 1 \<le> 2 ^ 24" "m \<le> 2 ^ 24"
        "trees ?st (z - 1 + 1) = Some (createTree nx)" "level_ok b (createTree nx)"
        "total (createTree nx) = m" "\<forall>c \<in> set (createTree nx). zgt (off_zoom c) (z - 1)"
        "minZoom (opts ?st) \<le> k" "k \<le> z - 1 + 1"
        using p q "1.prems" False by simp_all
      have "\<exists>t. trees (load_loop e ?st (createTree nx) (z - 1)) k = Some t \<and> level_ok b t \<and>
          total t = m"
        by (rule "1.IH" [OF True c [symmetric] w bb h])
      then show ?thesis using u by simp
    qed
  next
    case False
    then have "k = z + 1" using "1.prems"(10,11) by simp
    then show ?thesis using False "1.prems"(6,7,8) by (simp add: load_loop.simps [of e st tree z])
  qed
qed

lemma count_of_project: "1 \<le> off_num c \<Longrightarrow> count_of (project c) = off_num c"
  by (simp add: count_of_def project_def getClusterJSON_def Let_def)

lemma limitZoom_bounds:
  "minZoom options \<le> maxZoom options + 1 \<Longrightarrow>
     minZoom options \<le> limitZoom options zoom \<and> limitZoom options zoom \<le> maxZoom options + 1"
  by (simp add: limitZoom_def)

lemma leaf_cells_level:
  assumes "\<forall>p \<in> set ps. in_bbox b (float32 (fst (coordinates p)), float32 (snd (coordinates p)))"
  shows "level_ok b (leaf_cells ps)" and "total (leaf_cells ps) = int (length ps)"
    and "\<forall>c \<in> set (leaf_cells ps). zgt (off_zoom c) z"
proof -
  show "level_ok b (leaf_cells ps)" using assms by (auto simp add: level_ok_def leaf_cells_def)
  have "map off_num (leaf_cells ps) = replicate (length ps) 1"
    by (simp add: leaf_cells_def comp_def map_replicate_const)
  then show "total (leaf_cells ps) = int (length ps)"
    by (simp add: total_def sum_list_replicate)
  show "\<forall>c \<in> set (leaf_cells ps). zgt (off_zoom c) z" by (auto simp add: leaf_cells_def)
qed

lemma load_levels:
  assumes "within_ok e" and "box32 b"
    and "- (2 ^ 24) \<le> minZoom (opts st)" and "maxZoom (opts st) \<le> 2 ^ 24"
    and "length ps \<le> 2 ^ 24"
    and "\<forall>p \<in> set ps. in_bbox b (float32 (fst (coordinates p)), float32 (snd (coordinates p)))"
    and "minZoom (opts st) \<le> k" "k \<le> maxZoom (opts st) + 1"
  shows "\<exists>t. trees (load e st ps) k = Some t \<and> level_ok b t \<and> total t = int (length ps)"
proof -
  let ?st = "st\<lparr>points := ps,
    trees := (trees st)(maxZoom (opts st) + 1 := Some (createTree (leaf_cells ps)))\<rparr>"
  have h: "- (2 ^ 24) \<le> minZoom (opts ?st)" "maxZoom (opts st) \<le> 2 ^ 24"
    "int (length ps) \<le> 2 ^ 24"
    "trees ?st (maxZoom (opts st) + 1) = Some (createTree (leaf_cells ps))"
    "level_ok b (createTree (leaf_cells ps))"
    "total (createTree (leaf_cells ps)) = int (length ps)"
    "\<forall>c \<in> set (createTree (leaf_cells ps)). zgt (off_zoom c) (maxZoom (opts st))"
    "minZoom (opts ?st) \<le> k"
    using leaf_cells_level [OF assms(6)] assms(3,4,5,7)
    by (simp_all add: createTree_leaf_cells [OF assms(5)])
  show ?thesis
    unfolding load_def Let_def
    by (rule load_loop_levels [OF assms(1,2) h assms(8)])
qed

text \<open>
  A box that covers the records of a level contains a box of single-precision bounds that
  covers them, since the coordinates of the records are single-precision numbers.
\<close>

lemma tight_box:
  assumes f: "\<forall>c \<in> set d. float32 (off_x c) = off_x c \<and> float32 (off_y c) = off_y c"
    and c: "\<forall>c \<in> set d. in_bbox bb (off_x c, off_y c)"
  shows "\<exists>b. box32 b \<and> (\<forall>c \<in> set d. in_bbox b (off_x c, off_y c)) \<and>
    (\<forall>p. in_bbox b p \<longrightarrow> in_bbox bb p)"
proof (cases "d = []")
  case True
  have "box32 (1, 0, 0, 0)" using float32_of_int [of 0] float32_of_int [of 1] by (simp add: box32_def)
  moreover have "\<not> in_bbox (1, 0, 0, 0) p" for p :: "rat \<times> rat" by (cases p) simp
  ultimately show ?thesis using True by (intro exI [of _ "(1, 0, 0, 0)"]) simp
next
  case False
  obtain minX minY maxX maxY where bb: "bb = (minX, minY, maxX, maxY)" by (cases bb) auto
  define X where "X = off_x ` set d"
  define Y where "Y = off_y ` set d"
  have fin: "finite X" "finite Y" "X \<noteq> {}" "Y \<noteq> {}" using False by (simp_all add: X_def Y_def)
  have fx: "float32 x = x \<and> minX \<le> x \<and> x \<le> maxX" if "x \<in> X" for x
    using that f c by (auto simp add: X_def bb)
  have fy: "float32 y = y \<and> minY \<le> y \<and> y \<le> maxY" if "y \<in> Y" for y
    using that f c by (auto simp add: Y_def bb)
  note mx = fx [OF Min_in [OF fin(1,3)]] fx [OF Max_in [OF fin(1,3)]]
  note my = fy [OF Min_in [OF fin(2,4)]] fy [OF Max_in [OF fin(2,4)]]
  let ?b = "(Min X, Min Y, Max X, Max Y)"
  have 1: "box32 ?b" using mx my by (simp add: box32_def)
  have 2: "\<forall>c \<in> set d. in_bbox ?b (off_x c, off_y c)"
    using fin by (simp add: X_def Y_def)
  have 3: "\<forall>p. in_bbox ?b p \<longrightarrow> in_bbox bb p"
  proof (intro allI impI)
    fix p :: "rat \<times> rat" assume "in_bbox ?b p"
    then have "Min X \<le> fst p" "fst p \<le> Max X" "Min Y \<le> snd p" "snd p \<le> Max Y"
      by (cases p, simp)+
    then have "minX \<le> fst p" "fst p \<le> maxX" "minY \<le> snd p" "snd p \<le> maxY"
      using mx my by linarith+
    then show "in_bbox bb p" by (cases p) (simp add: bb)
  qed
  show ?thesis using 1 2 3 by blast
qed

text \<open>
  Claim C1, as the code has it. The coordinates of the points are rounded to single
  precision when they are loaded, and the counts are kept in a \<open>Float32Array\<close>, which
  holds them up to \<open>2 ^ 24\<close>. Over an index that keeps its contract, for options with
  \<open>minZoom \<le> maxZoom + 1\<close> and zoom bounds that single precision holds, for at most
  \<open>2 ^ 24\<close> points with coordinates in the range of single precision and for every zoom:
  \<open>getClusters\<close> for a box that covers the rounded coordinates of all points succeeds,
  and the point counts of its results (1 for an input point) add up to the number of
  loaded points. Every pass keeps the sum of the point counts of its level: each record is
  marked once, and is then either absorbed into the one cluster that marks it or carried
  forward once.
\<close>

theorem getClusters_counts_all_points:
  assumes "within_ok e" and "range_ok e"
    and "minZoom (opts st) \<le> maxZoom (opts st) + 1"
    and "- (2 ^ 24) \<le> minZoom (opts st)" and "maxZoom (opts st) \<le> 2 ^ 24"
    and "length ps \<le> 2 ^ 24" and "list_all in_range ps"
    and "\<forall>p \<in> set ps. in_bbox bbox (float32 (fst (coordinates p)), float32 (snd (coordinates p)))"
  shows "\<exists>res. getClusters e (load e st ps) bbox zoom = Inr res \<and>
           sum_list (map count_of res) = int (length ps)"
proof -
  have o: "opts (load e st ps) = opts st" by (simp add: load_def Let_def load_loop_opts)
  let ?k = "limitZoom (opts st) zoom"
  have lf: "\<forall>c \<in> set (leaf_cells ps). float32 (off_x c) = off_x c \<and> float32 (off_y c) = off_y c"
    by (auto simp add: leaf_cells_def float32_idem)
  have lc: "\<forall>c \<in> set (leaf_cells ps). in_bbox bbox (off_x c, off_y c)"
    using assms(8) by (auto simp add: leaf_cells_def)
  obtain b where b: "box32 b" "\<forall>c \<in> set (leaf_cells ps). in_bbox b (off_x c, off_y c)"
    "\<forall>p. in_bbox b p \<longrightarrow> in_bbox bbox p"
    using tight_box [OF lf lc] by blast
  have bp: "\<forall>p \<in> set ps. in_bbox b (float32 (fst (coordinates p)), float32 (snd (coordinates p)))"
  proof
    fix p assume "p \<in> set ps"
    then obtain k where k: "k < length ps" "p = ps ! k" by (auto simp add: in_set_conv_nth)
    then have "leaf_cells ps ! k \<in> set (leaf_cells ps)" by (simp add: leaf_cells_length)
    then have "in_bbox b (off_x (leaf_cells ps ! k), off_y (leaf_cells ps ! k))" using b(2) by blast
    then show "in_bbox b (float32 (fst (coordinates p)), float32 (snd (coordinates p)))"
      using k by (simp add: leaf_cells_nth)
  qed
  obtain t where t: "trees (load e st ps) ?k = Some t" "level_ok b t" "total t = int (length ps)"
    using load_levels [OF assms(1) b(1) assms(4,5,6) bp, of ?k] limitZoom_bounds [OF assms(3)]
    by blast
  have tb: "level_ok bbox t" using t(2) b(3) by (auto simp add: level_ok_def)
  let ?ids = "kd_range e (coords t) bbox"
  have d: "distinct ?ids" and s: "set ?ids = {k. k < length (coords t) \<and> in_bbox bbox (coords t ! k)}"
    using assms(2) unfolding range_ok_def by blast+
  have s': "set ?ids = {0..<length t}"
    unfolding s using tb by (auto simp add: coords_def level_ok_def)
  have g: "getClusters e (load e st ps) bbox zoom = Inr (map (\<lambda>k. project (t ! k)) ?ids)"
    using t(1) by (simp add: getClusters_def o)
  have "sum_list (map count_of (map (\<lambda>k. project (t ! k)) ?ids)) =
      sum_list (map (\<lambda>k. off_num (t ! k)) ?ids)"
  proof -
    have "count_of (project (t ! k)) = off_num (t ! k)" if "k \<in> set ?ids" for k
      using that s' level_okD(1) [OF tb] by (simp add: count_of_project)
    then show ?thesis by (simp add: comp_def cong: map_cong)
  qed
  also have "\<dots> = (\<Sum>k \<in> set ?ids. off_num (t ! k))"
    using d by (rule sum_list_distinct_conv_sum_set)
  also have "\<dots> = (\<Sum>k = 0..<length t. off_num (t ! k))" by (simp only: s')
  also have "\<dots> = total t"
    by (simp add: total_def sum_list_sum_nth)
  finally show ?thesis using g t(3) by simp
qed

lemma scan_within_ok: "within_ok scan_env"
  by (auto simp add: within_ok_def scan_env_def scan_within_def split: option.splits)

section \<open>The lineage of a pass\<close>

lemma merge_neighbors_nth:
  "f32i zoom = zoom \<Longrightarrow> \<forall>k \<in> set ks. k < length d \<Longrightarrow> j < length d \<Longrightarrow>
     fst (merge_neighbors zoom cid ks (d, wx, wy)) ! j =
       (if j \<in> set ks \<and> \<not> zle (off_zoom (d ! j)) zoom
        then (d ! j)\<lparr>off_zoom := Zoom zoom, off_parent := f32i cid\<rparr> else d ! j)"
proof (induction ks arbitrary: d wx wy)
  case Nil
  then show ?case by simp
next
  case (Cons k ks)
  show ?case
  proof (cases "zle (off_zoom (d ! k)) zoom")
    case True
    then show ?thesis using Cons.IH [of d wx wy] Cons.prems by auto
  next
    case False
    let ?d = "d[k := (d ! k)\<lparr>off_zoom := Zoom zoom, off_parent := f32i cid\<rparr>]"
    have "\<forall>k \<in> set ks. k < length ?d" "j < length ?d" using Cons.prems by simp_all
    from Cons.IH [OF Cons.prems(1) this]
    show ?thesis using False Cons.prems by (auto simp add: nth_list_update)
  qed
qed

lemma copy_neighbors_nth:
  "f32i zoom = zoom \<Longrightarrow> \<forall>k \<in> set ks. k < length d \<Longrightarrow> j < length d \<Longrightarrow>
     fst (copy_neighbors zoom ks (d, nx)) ! j =
       (if j \<in> set ks \<and> \<not> zle (off_zoom (d ! j)) zoom
        then (d ! j)\<lparr>off_zoom := Zoom zoom\<rparr> else d ! j)"
proof (induction ks arbitrary: d nx)
  case Nil
  then show ?case by simp
next
  case (Cons k ks)
  show ?case
  proof (cases "zle (off_zoom (d ! k)) zoom")
    case True
    then show ?thesis using Cons.IH [of d nx] Cons.prems by auto
  next
    case False
    let ?d = "d[k := (d ! k)\<lparr>off_zoom := Zoom zoom\<rparr>]"
    have "\<forall>k \<in> set ks. k < length ?d" "j < length ?d" using Cons.prems by simp_all
    from Cons.IH [OF Cons.prems(1) this]
    show ?thesis using False Cons.prems by (auto simp add: nth_list_update)
  qed
qed

lemma copy_neighbors_snd:
  "f32i zoom = zoom \<Longrightarrow> distinct ks \<Longrightarrow> \<forall>k \<in> set ks. k < length d \<Longrightarrow>
     snd (copy_neighbors zoom ks (d, nx)) =
       nx @ map (\<lambda>k. (d ! k)\<lparr>off_zoom := Zoom zoom\<rparr>)
              (filter (\<lambda>k. \<not> zle (off_zoom (d ! k)) zoom) ks)"
proof (induction ks arbitrary: d nx)
  case Nil
  then show ?case by simp
next
  case (Cons k ks)
  show ?case
  proof (cases "zle (off_zoom (d ! k)) zoom")
    case True
    then show ?thesis using Cons.IH [of d nx] Cons.prems by auto
  next
    case False
    let ?d = "d[k := (d ! k)\<lparr>off_zoom := Zoom zoom\<rparr>]"
    have h: "distinct ks" "\<forall>k \<in> set ks. k < length ?d" using Cons.prems by simp_all
    have e: "?d ! x = d ! x" if "x \<in> set ks" for x
    proof -
      have "k \<noteq> x" using that Cons.prems(2) by auto
      then show ?thesis by (rule nth_list_update_neq)
    qed
    have f: "filter (\<lambda>k. \<not> zle (off_zoom (?d ! k)) zoom) ks =
        filter (\<lambda>k. \<not> zle (off_zoom (d ! k)) zoom) ks"
      by (rule filter_cong) (simp_all add: e)
    have "map (\<lambda>k. (?d ! k)\<lparr>off_zoom := Zoom zoom\<rparr>) (filter (\<lambda>k. \<not> zle (off_zoom (?d ! k)) zoom) ks) =
        map (\<lambda>k. (d ! k)\<lparr>off_zoom := Zoom zoom\<rparr>) (filter (\<lambda>k. \<not> zle (off_zoom (d ! k)) zoom) ks)"
      unfolding f by (rule map_cong) (simp_all add: e)
    then show ?thesis
      using Cons.IH [OF Cons.prems(1) h, where nx = "nx @ [(d ! k)\<lparr>off_zoom := Zoom zoom\<rparr>]"] False
        Cons.prems(1)
      by simp
  qed
qed

lemma encode_id_pos: "i < 2 ^ 26 \<Longrightarrow> 0 \<le> zoom \<Longrightarrow> 0 \<le> n \<Longrightarrow> 0 < encode_id i zoom n"
proof -
  assume a: "i < 2 ^ 26" "0 \<le> zoom" "0 \<le> n"
  have "int i < 2 ^ 26" using a(1) by (metis of_nat_less_iff of_nat_numeral of_nat_power)
  then have "shl5 (int i) = int i * 32" by (simp add: shl5_small)
  then show ?thesis using a(2,3) by (simp add: encode_id_def)
qed

lemma encode_id_inj:
  assumes "i < 2 ^ 26" "j < 2 ^ 26" "0 \<le> zoom" "zoom \<le> 30"
    and "encode_id i zoom n = encode_id j zoom n"
  shows "i = j"
proof -
  have a: "getOriginId n (encode_id i zoom n) = int i"
    by (rule decode_encode(1) [OF assms(1,3,4)])
  have b: "getOriginId n (encode_id j zoom n) = int j"
    by (rule decode_encode(1) [OF assms(2,3,4)])
  have "int i = int j" using a b unfolding assms(5) by (rule trans [OF sym])
  then show ?thesis by simp
qed

lemma kids_static:
  assumes s: "map static d' = map static d" and w: "within_ok e" and i: "i < length d"
    and p: "\<And>k. k < length d \<Longrightarrow> (off_parent (d' ! k) = cid) = (off_parent (d ! k) = cid)"
  shows "kids e options zoom d' i cid = kids e options zoom d i cid"
    and "map (\<lambda>k. off_num (d' ! k)) (kids e options zoom d i cid) =
         map (\<lambda>k. off_num (d ! k)) (kids e options zoom d i cid)"
proof -
  have c: "coords d' = coords d" using s by (simp add: coords_static)
  have x: "off_x (d' ! i) = off_x (d ! i)" "off_y (d' ! i) = off_y (d ! i)"
    using static_nth [OF s i] by simp_all
  let ?ks = "kd_within e (coords d) (Some (off_x (d ! i), off_y (d ! i))) (cluster_radius options zoom)"
  have r: "k < length d" if "k \<in> set ?ks" for k
    using within_okD(2) [OF w that] by (simp add: coords_def)
  show "kids e options zoom d' i cid = kids e options zoom d i cid"
    unfolding kids_def c x by (rule filter_cong) (simp_all add: p r)
  show "map (\<lambda>k. off_num (d' ! k)) (kids e options zoom d i cid) =
         map (\<lambda>k. off_num (d ! k)) (kids e options zoom d i cid)"
  proof (rule map_cong)
    fix k assume "k \<in> set (kids e options zoom d i cid)"
    then have "k < length d" using r by (simp add: kids_def)
    then show "off_num (d' ! k) = off_num (d ! k)" using static_nth(4) [OF s] by simp
  qed simp
qed

lemma pass_inv_frame:
  assumes inv: "pass_inv e options n zoom d nx"
    and w: "within_ok e"
    and s: "map static d' = map static d"
    and keep0: "\<forall>k < length d. zle (off_zoom (d ! k)) zoom \<longrightarrow> d' ! k = d ! k"
    and new0: "\<forall>k < length d. \<not> zle (off_zoom (d ! k)) zoom \<longrightarrow>
       off_parent (d' ! k) = - 1 \<or> (zle (off_zoom (d' ! k)) zoom \<and> off_parent (d' ! k) = encode_id i zoom n)"
    and i: "i < length d" "\<not> zle (off_zoom (d ! i)) zoom" "zle (off_zoom (d' ! i)) zoom"
    and b: "length d < 2 ^ 26" "0 \<le> zoom" "zoom \<le> 30" "0 \<le> n"
  shows "\<And>k. k < length d' \<Longrightarrow> \<not> zle (off_zoom (d' ! k)) zoom \<Longrightarrow> off_parent (d' ! k) = - 1"
    and "\<And>k. k < length d' \<Longrightarrow> off_parent (d' ! k) \<noteq> - 1 \<Longrightarrow>
      \<exists>j < length d'. zle (off_zoom (d' ! j)) zoom \<and> off_parent (d' ! k) = encode_id j zoom n"
    and "\<And>c. c \<in> set nx \<Longrightarrow> off_parent c = - 1 \<and>
         ((\<exists>k < length d'. zle (off_zoom (d' ! k)) zoom \<and> static c = static (d' ! k)) \<or>
          (\<exists>j. formed_at e options n zoom d' c j))"
    and "\<And>k. k < length d \<Longrightarrow> zle (off_zoom (d ! k)) zoom \<Longrightarrow>
         (\<exists>c \<in> set nx. static c = static (d' ! k)) \<or>
         (\<exists>c \<in> set nx. \<exists>j. formed_at e options n zoom d' c j \<and>
            k \<in> set (kids e options zoom d' j (off_id c)))"
    and "\<And>k. k < length d \<Longrightarrow> off_parent (d ! k) \<noteq> encode_id i zoom n"
proof -
  let ?cid = "encode_id i zoom n"
  have keep: "\<And>k. k < length d \<Longrightarrow> zle (off_zoom (d ! k)) zoom \<Longrightarrow> d' ! k = d ! k"
    using keep0 by blast
  have new: "\<And>k. k < length d \<Longrightarrow> \<not> zle (off_zoom (d ! k)) zoom \<Longrightarrow>
       off_parent (d' ! k) = - 1 \<or> (zle (off_zoom (d' ! k)) zoom \<and> off_parent (d' ! k) = encode_id i zoom n)"
    using new0 by blast
  have l: "length d' = length d" using s by (rule map_eq_imp_length_eq)
  have A: "\<And>k. k < length d \<Longrightarrow> \<not> zle (off_zoom (d ! k)) zoom \<Longrightarrow> off_parent (d ! k) = - 1"
    and D: "\<And>k. k < length d \<Longrightarrow> off_parent (d ! k) \<noteq> - 1 \<Longrightarrow>
         (\<exists>j < length d. zle (off_zoom (d ! j)) zoom \<and> off_parent (d ! k) = encode_id j zoom n)"
    and B: "\<And>c. c \<in> set nx \<Longrightarrow> off_parent c = - 1 \<and>
         ((\<exists>k < length d. zle (off_zoom (d ! k)) zoom \<and> static c = static (d ! k)) \<or>
          (\<exists>j. formed_at e options n zoom d c j))"
    and C: "\<And>k. k < length d \<Longrightarrow> zle (off_zoom (d ! k)) zoom \<Longrightarrow>
         (\<exists>c \<in> set nx. static c = static (d ! k)) \<or>
         (\<exists>c \<in> set nx. \<exists>j. formed_at e options n zoom d c j \<and>
            k \<in> set (kids e options zoom d j (off_id c)))"
    using inv unfolding pass_inv_def by blast+
  have small: "k < 2 ^ 26" if "k < length d" for k using that b(1) by simp
  have pos: "0 < encode_id j zoom n" if "j < length d" for j
    using encode_id_pos [OF small [OF that] b(2) b(4)] .
  show fresh: "off_parent (d ! k) \<noteq> ?cid" if k: "k < length d" for k
  proof (cases "off_parent (d ! k) = - 1")
    case True
    then show ?thesis using pos [OF i(1)] by simp
  next
    case False
    then obtain j where j: "j < length d" "zle (off_zoom (d ! j)) zoom"
      "off_parent (d ! k) = encode_id j zoom n"
      using D [OF k] by blast
    have "j \<noteq> i" using j(2) i(2) by auto
    then have "encode_id j zoom n \<noteq> ?cid"
      using encode_id_inj [OF small [OF j(1)] small [OF i(1)] b(2,3)] by blast
    then show ?thesis using j(3) by simp
  qed
  have mono: "zle (off_zoom (d' ! k)) zoom" if "k < length d" "zle (off_zoom (d ! k)) zoom" for k
    using keep [OF that] that(2) by simp
  have K: "formed_at e options n zoom d' c j \<and>
      kids e options zoom d' j (off_id c) = kids e options zoom d j (off_id c)"
    if f: "formed_at e options n zoom d c j" for c j
  proof -
    have j: "j < length d" "zle (off_zoom (d ! j)) zoom" "off_id c = encode_id j zoom n"
      and f1: "1 < off_num c"
      and f2: "2 \<le> length (kids e options zoom d j (off_id c))"
      and f3: "off_num c = sum_list (map (\<lambda>k. off_num (d ! k)) (kids e options zoom d j (off_id c)))"
      using f unfolding formed_at_def by blast+
    have ne: "j \<noteq> i" using j(2) i(2) by auto
    have cne: "off_id c \<noteq> ?cid"
      using encode_id_inj [OF small [OF j(1)] small [OF i(1)] b(2,3)] ne j(3) by auto
    have p: "(off_parent (d' ! k) = off_id c) = (off_parent (d ! k) = off_id c)" if k: "k < length d" for k
    proof (cases "zle (off_zoom (d ! k)) zoom")
      case True
      then show ?thesis using keep [OF k] by simp
    next
      case False
      have "off_parent (d ! k) \<noteq> off_id c" using A [OF k False] pos [OF j(1)] j(3) by simp
      moreover have "off_parent (d' ! k) \<noteq> off_id c"
        using new [OF k False] pos [OF j(1)] j(3) cne by auto
      ultimately show ?thesis by simp
    qed
    have k1: "kids e options zoom d' j (off_id c) = kids e options zoom d j (off_id c)"
      by (rule kids_static(1) [OF s w j(1) p])
    have k2: "map (\<lambda>k. off_num (d' ! k)) (kids e options zoom d j (off_id c)) =
        map (\<lambda>k. off_num (d ! k)) (kids e options zoom d j (off_id c))"
      by (rule kids_static(2) [OF s w j(1) p])
    have "formed_at e options n zoom d' c j"
      unfolding formed_at_def k1 k2 l using j(1,3) mono [OF j(1,2)] f1 f2 f3 by blast
    then show ?thesis using k1 by simp
  qed
  show "off_parent (d' ! k) = - 1" if k: "k < length d'" "\<not> zle (off_zoom (d' ! k)) zoom" for k
  proof -
    have k': "k < length d" using k(1) l by simp
    have u: "\<not> zle (off_zoom (d ! k)) zoom" using mono [OF k'] k(2) by blast
    show ?thesis using new [OF k' u] k(2) by blast
  qed
  show "\<exists>j < length d'. zle (off_zoom (d' ! j)) zoom \<and> off_parent (d' ! k) = encode_id j zoom n"
    if k: "k < length d'" "off_parent (d' ! k) \<noteq> - 1" for k
  proof -
    have k': "k < length d" using k(1) l by simp
    show ?thesis
    proof (cases "zle (off_zoom (d ! k)) zoom")
      case True
      then have "off_parent (d ! k) \<noteq> - 1" using keep [OF k'] k(2) by simp
      then obtain j where "j < length d" "zle (off_zoom (d ! j)) zoom"
        "off_parent (d ! k) = encode_id j zoom n"
        using D [OF k'] by blast
      then show ?thesis using mono keep [OF k' True] l by auto
    next
      case False
      then have "off_parent (d' ! k) = ?cid" using new [OF k' False] k(2) by blast
      then show ?thesis using i(1,3) l by auto
    qed
  qed
  show "off_parent c = - 1 \<and>
         ((\<exists>k < length d'. zle (off_zoom (d' ! k)) zoom \<and> static c = static (d' ! k)) \<or>
          (\<exists>j. formed_at e options n zoom d' c j))" if c: "c \<in> set nx" for c
  proof -
    have p: "off_parent c = - 1" using B [OF c] by simp
    consider k where "k < length d" "zle (off_zoom (d ! k)) zoom" "static c = static (d ! k)"
      | j where "formed_at e options n zoom d c j"
      using B [OF c] by blast
    then show ?thesis
    proof cases
      case 1
      then have "k < length d'" "zle (off_zoom (d' ! k)) zoom" "static c = static (d' ! k)"
        using keep [OF 1(1,2)] l by simp_all
      then show ?thesis using p by blast
    next
      case 2
      then show ?thesis using K p by blast
    qed
  qed
  show "(\<exists>c \<in> set nx. static c = static (d' ! k)) \<or>
         (\<exists>c \<in> set nx. \<exists>j. formed_at e options n zoom d' c j \<and>
            k \<in> set (kids e options zoom d' j (off_id c)))"
    if k: "k < length d" "zle (off_zoom (d ! k)) zoom" for k
  proof -
    consider c where "c \<in> set nx" "static c = static (d ! k)"
      | c j where "c \<in> set nx" "formed_at e options n zoom d c j"
          "k \<in> set (kids e options zoom d j (off_id c))"
      using C [OF k] by blast
    then show ?thesis
    proof cases
      case 1
      then show ?thesis using keep [OF k] by auto
    next
      case 2
      have "formed_at e options n zoom d' c j"
        "k \<in> set (kids e options zoom d' j (off_id c))"
        using K [OF 2(2)] 2(3) by simp_all
      then show ?thesis using 2(1) by blast
    qed
  qed
qed

section \<open>Examples\<close>

text \<open>
  Against claim C6 as it is stated: the point \<open>(0.7, 0)\<close> lies within the box
  \<open>[0.7, -1, 1, 1]\<close>, but its stored coordinate is the single-precision number below
  \<open>0.7\<close>, and \<open>getClusters\<close> above \<open>maxZoom\<close> does not return the point.
\<close>

theorem getClusters_above_maxZoom_rounded:
  "in_bbox (7 / 10, - 1, 1, 1) (coordinates (example_point (7 / 10) 0)) \<and>
   rat_of_int (maxZoom (opts example_instance) + 1) \<le> 5 \<and>
   getClusters scan_env (load scan_env example_instance [example_point (7 / 10) 0])
     (7 / 10, - 1, 1, 1) 5 = Inr []"
  by code_simp


theorem getClusters_counts_all_points_witness:
  "within_ok scan_env \<and> range_ok scan_env \<and>
   minZoom (opts example_instance) \<le> maxZoom (opts example_instance) + 1 \<and>
   - (2 ^ 24) \<le> minZoom (opts example_instance) \<and> maxZoom (opts example_instance) \<le> 2 ^ 24 \<and>
   length example_points \<le> 2 ^ 24 \<and> list_all in_range example_points \<and>
   list_all (\<lambda>p. in_bbox example_bbox (float32 (fst (coordinates p)),
                                         float32 (snd (coordinates p)))) example_points \<and>
   (\<exists>res. getClusters scan_env (load scan_env example_instance example_points) example_bbox 4 =
            Inr res \<and> sum_list (map count_of res) = 3)"
proof -
  have h: "minZoom (opts example_instance) \<le> maxZoom (opts example_instance) + 1"
    "- (2 ^ 24) \<le> minZoom (opts example_instance)" "maxZoom (opts example_instance) \<le> 2 ^ 24"
    "length example_points \<le> 2 ^ 24"
    by (simp_all add: example_instance_opts example_points_def)
  have r: "list_all in_range example_points" by code_simp
  have b: "list_all (\<lambda>p. in_bbox example_bbox (float32 (fst (coordinates p)),
      float32 (snd (coordinates p)))) example_points"
    by code_simp
  then have b': "\<forall>p \<in> set example_points. in_bbox example_bbox
      (float32 (fst (coordinates p)), float32 (snd (coordinates p)))"
    by (simp add: list_all_iff)
  have l: "int (length example_points) = 3" by (simp add: example_points_def)
  show ?thesis
    using getClusters_counts_all_points [OF scan_within_ok scan_range_ok h r b', of 4]
      scan_within_ok scan_range_ok h r b
    by (simp only: l simp_thms)
qed

text \<open>
  Against claim C1 as it is stated: the box \<open>[0.7, -1, 1, 1]\<close> covers the one loaded point
  \<open>(0.7, 0)\<close>, but the coordinate that the level holds is the single-precision number
  below \<open>0.7\<close>, and \<open>getClusters\<close> at zoom 4 returns nothing, so the point counts add up
  to 0.
\<close>

theorem getClusters_counts_rounded:
  "in_bbox (7 / 10, - 1, 1, 1) (coordinates (example_point (7 / 10) 0)) \<and>
   minZoom (opts example_instance) \<le> 4 \<and> 4 \<le> maxZoom (opts example_instance) \<and>
   getClusters scan_env (load scan_env example_instance [example_point (7 / 10) 0])
     (7 / 10, - 1, 1, 1) 4 = Inr []"
  by code_simp

end
